theory Spec2Isabelle
  imports Main "HOL-Library.Multiset"
begin

section \<open>The metadata cache: the class \<open>image_data\<close>\<close>

subsection \<open>Identifiers\<close>

text \<open>
  The caches and ledgers of the class are plain objects (\<open>{}\<close>) keyed by identifier. A
  lookup \<open>obj[key]\<close> in a plain object finds the members of \<open>Object.prototype\<close> under
  their names, and a store under \<open>__proto__\<close> replaces the prototype. An identifier is
  therefore any string that is not the name of a member of \<open>Object.prototype\<close>: for such a
  key a lookup finds what was stored under it and nothing else, so that each of these
  objects is a map that starts empty. The type \<open>ident\<close> is the type of these strings;
  \<open>Rep_ident\<close> gives the string, which is what the URLs of the fetches are built from.
\<close>

definition object_prototype_members :: "string list" where
  "object_prototype_members =
     [''constructor'', ''__defineGetter__'', ''__defineSetter__'', ''hasOwnProperty'',
      ''__lookupGetter__'', ''__lookupSetter__'', ''isPrototypeOf'', ''propertyIsEnumerable'',
      ''toString'', ''valueOf'', ''__proto__'', ''toLocaleString'']"

typedef ident = "{key :: string. key \<notin> set object_prototype_members}"
proof
  show "[] \<in> {key :: string. key \<notin> set object_prototype_members}"
    by (simp add: object_prototype_members_def)
qed

setup_lifting type_definition_ident

instantiation ident :: equal
begin

lift_definition equal_ident :: "ident \<Rightarrow> ident \<Rightarrow> bool" is "\<lambda>a b. a = b" .

instance
  by standard (simp add: equal_ident.rep_eq Rep_ident_inject)

end

subsection \<open>Records\<close>

text \<open>
  A record of the site is modelled with the fields the two classes read: the owner
  (\<open>userId\<close>), the content kind (\<open>illustType\<close>, 2 for an animation), the tags, the
  full-resolution URL \<open>urls.original\<close>, the sub-pages with their \<open>urls.small\<close> and
  \<open>urls.original\<close>, the page count, and the two fields the cache itself writes:
  \<open>ugoiraMetadata\<close> and \<open>userInfo\<close>. A field that JavaScript may leave \<open>undefined\<close> is
  an option.
\<close>

record user_info =
  userId :: ident
  name :: string

record ugoira_metadata =
  originalSrc :: string

record urls =
  small :: string
  original :: string

record manga_page =
  urls :: urls

record illust_info =
  illustId :: ident
  userId :: ident
  illustType :: nat
  tags :: "string list"
  urls :: urls
  mangaPages :: "manga_page list"
  pageCount :: nat
  ugoiraMetadata :: "ugoira_metadata option"
  userInfo :: "user_info option"

text \<open>
  What the transport hands to a completion handler: an object with an \<open>error\<close> flag and a
  \<open>body\<close>. The handlers of \<open>image_data\<close> read exactly these two properties.
\<close>

record 'a result =
  error :: bool
  body :: 'a

subsection \<open>Callbacks\<close>

text \<open>
  A callback is a function of the caller. It is modelled by a name and by the calls of
  \<open>get_image_info\<close> and \<open>get_user_info\<close> that it makes on the cache when it is invoked,
  in the order it makes them, each with the callback it passes, if any. A callback that
  calls neither has the empty list. These two are the methods that the class offers to a
  caller that waits for a record; a callback that injects records (\<open>add_illust_data\<close>,
  \<open>add_user_data\<close>) while it runs is not among the callbacks of this model.
\<close>

datatype callback = Callback nat "call list"
  and call =
    Call_get_image_info ident "callback option"
  | Call_get_user_info ident "callback option"

fun name_of :: "callback \<Rightarrow> nat" where
  "name_of (Callback n calls) = n"

fun calls_of :: "callback \<Rightarrow> call list" where
  "calls_of (Callback n calls) = calls"

subsection \<open>The state\<close>

text \<open>
  The effects of the class on its surroundings are kept in the state, after the fields of
  the object itself:
  \<^item> \<open>requests\<close>: every call of \<open>helpers.get_request\<close> (URL and completion handler) and of
    \<open>helpers.fetch_ugoira_metadata\<close> (identifier and the \<open>illust_data\<close> its closure holds),
    in the order they were made. The log only grows; the fetches in flight are among them.
  \<^item> \<open>timeouts\<close>: the closures handed to \<open>setTimeout(..., 0)\<close> that have not run yet.
  \<^item> \<open>invoked\<close>: every invocation of a callback, by the name of the callback, with its
    argument.
\<close>

datatype handler = Loaded_image_info | Loaded_user_info

datatype request =
    Get_request string handler
  | Fetch_ugoira_metadata ident illust_info

datatype timeout = Load_user_info_later ident | Call_pending_callbacks_later

datatype invocation = Image_callback nat illust_info | User_callback nat user_info

record image_data_class =
  image_data :: "ident \<Rightarrow> illust_info option"
  user_data :: "ident \<Rightarrow> user_info option"
  illust_id_to_user_id :: "ident \<Rightarrow> ident option"
  loading_image_data_ids :: "ident \<Rightarrow> bool option"
  loading_user_data_ids :: "ident \<Rightarrow> bool option"
  pending_image_info_calls :: "(ident \<times> callback) list"
  pending_user_info_calls :: "(ident \<times> callback) list"
  requests :: "request list"
  timeouts :: "timeout list"
  invoked :: "invocation list"

definition constructor :: image_data_class where
  "constructor =
     \<lparr>image_data = Map.empty, user_data = Map.empty, illust_id_to_user_id = Map.empty,
      loading_image_data_ids = Map.empty, loading_user_data_ids = Map.empty,
      pending_image_info_calls = [], pending_user_info_calls = [],
      requests = [], timeouts = [], invoked = []\<rparr>"

subsection \<open>Loading\<close>

definition load_user_info :: "image_data_class \<Rightarrow> ident \<Rightarrow> image_data_class" where
  "load_user_info s user_id =
     (if loading_user_data_ids s user_id = Some True then s
      else if user_data s user_id \<noteq> None then
        s\<lparr>timeouts := timeouts s @ [Call_pending_callbacks_later]\<rparr>
      else
        s\<lparr>loading_user_data_ids := (loading_user_data_ids s)(user_id \<mapsto> True),
          requests :=
            requests s @ [Get_request (''/ajax/user/'' @ Rep_ident user_id) Loaded_user_info]\<rparr>)"

definition load_image_info :: "image_data_class \<Rightarrow> ident \<Rightarrow> image_data_class" where
  "load_image_info s0 illust_id =
     (let s = (case illust_id_to_user_id s0 illust_id of
                 None \<Rightarrow> s0
               | Some cached_user_id \<Rightarrow> load_user_info s0 cached_user_id)
      in if loading_image_data_ids s illust_id = Some True then s
         else (case image_data s illust_id of
                 Some illust_data \<Rightarrow> load_user_info s (illust_info.userId illust_data)
               | None \<Rightarrow>
                   s\<lparr>loading_image_data_ids := (loading_image_data_ids s)(illust_id \<mapsto> True),
                     requests :=
                       requests s @
                       [Get_request (''/ajax/illust/'' @ Rep_ident illust_id) Loaded_image_info]\<rparr>))"

definition get_image_info ::
  "image_data_class \<Rightarrow> ident \<Rightarrow> callback option \<Rightarrow> image_data_class" where
  "get_image_info s illust_id callback =
     load_image_info
       (case callback of
          None \<Rightarrow> s
        | Some cb \<Rightarrow> s\<lparr>pending_image_info_calls := pending_image_info_calls s @ [(illust_id, cb)]\<rparr>)
       illust_id"

definition get_user_info ::
  "image_data_class \<Rightarrow> ident \<Rightarrow> callback option \<Rightarrow> image_data_class" where
  "get_user_info s user_id callback =
     load_user_info
       (case callback of
          None \<Rightarrow> s
        | Some cb \<Rightarrow> s\<lparr>pending_user_info_calls := pending_user_info_calls s @ [(user_id, cb)]\<rparr>)
       user_id"

subsection \<open>\<open>call_pending_callbacks\<close>\<close>

text \<open>What a callback does once it has been entered: its calls, in order.\<close>

fun perform_call :: "image_data_class \<Rightarrow> call \<Rightarrow> image_data_class" where
  "perform_call s (Call_get_image_info illust_id callback) = get_image_info s illust_id callback"
| "perform_call s (Call_get_user_info user_id callback) = get_user_info s user_id callback"

fun perform_calls :: "image_data_class \<Rightarrow> call list \<Rightarrow> image_data_class" where
  "perform_calls s [] = s"
| "perform_calls s (c # calls) = perform_calls (perform_call s c) calls"

text \<open>
  For the termination of the two loops: the size of the callbacks that wait in a queue,
  and the size of the callbacks that a list of calls adds to each of the queues.
\<close>

definition queue_weight :: "(ident \<times> callback) list \<Rightarrow> nat" where
  "queue_weight queue = sum_list (map (\<lambda>pending. size (snd pending)) queue)"

fun image_calls_weight :: "call list \<Rightarrow> nat" where
  "image_calls_weight [] = 0"
| "image_calls_weight (Call_get_image_info illust_id (Some cb) # calls) =
     size cb + image_calls_weight calls"
| "image_calls_weight (c # calls) = image_calls_weight calls"

fun user_calls_weight :: "call list \<Rightarrow> nat" where
  "user_calls_weight [] = 0"
| "user_calls_weight (Call_get_user_info user_id (Some cb) # calls) =
     size cb + user_calls_weight calls"
| "user_calls_weight (c # calls) = user_calls_weight calls"

text \<open>
  The first loop of \<open>call_pending_callbacks\<close>. It runs over the list
  \<open>this.pending_image_info_calls\<close> itself, with the index \<open>i\<close> (the copy \<open>callbacks\<close> that
  the function makes first is not used): an entry whose illustration or owner is missing
  is skipped (\<open>continue\<close>, so \<open>i\<close> advances); otherwise the owner is written into the
  cached object, the entry is spliced out (\<open>--i\<close> and the loop's \<open>++i\<close> leave \<open>i\<close> where it
  is) and the callback is called. What the callback pushes to the list is in the list
  when the loop goes on.
\<close>

function image_info_calls_loop :: "nat \<Rightarrow> image_data_class \<Rightarrow> image_data_class" where
  "image_info_calls_loop i s =
     (if i < length (pending_image_info_calls s) then
        (case pending_image_info_calls s ! i of (illust_id, callback) \<Rightarrow>
           (case image_data s illust_id of
              None \<Rightarrow> image_info_calls_loop (Suc i) s
            | Some illust_data \<Rightarrow>
                (case user_data s (illust_info.userId illust_data) of
                   None \<Rightarrow> image_info_calls_loop (Suc i) s
                 | Some ud \<Rightarrow>
                     image_info_calls_loop i
                       (perform_calls
                          (s\<lparr>image_data := (image_data s)(illust_id \<mapsto> illust_data\<lparr>userInfo := Some ud\<rparr>),
                             pending_image_info_calls :=
                               take i (pending_image_info_calls s) @ drop (Suc i) (pending_image_info_calls s),
                             invoked :=
                               invoked s @
                               [Image_callback (name_of callback) (illust_data\<lparr>userInfo := Some ud\<rparr>)]\<rparr>)
                          (calls_of callback)))))
      else s)"
  by pat_completeness auto
termination
proof (relation "inv_image (less_than <*lex*> less_than)
    (\<lambda>(i, s). (queue_weight (pending_image_info_calls s), length (pending_image_info_calls s) - i))")
  show "wf (inv_image (less_than <*lex*> less_than)
    (\<lambda>(i, s). (queue_weight (pending_image_info_calls s), length (pending_image_info_calls s) - i)))"
    by (intro wf_inv_image wf_lex_prod wf_less_than)
next
  fix i :: nat and s :: image_data_class and x illust_id callback
  assume "i < length (pending_image_info_calls s)"
  then show "((Suc i, s), (i, s)) \<in> inv_image (less_than <*lex*> less_than)
    (\<lambda>(i, s). (queue_weight (pending_image_info_calls s), length (pending_image_info_calls s) - i))"
    by simp
next
  fix i :: nat and s :: image_data_class and x illust_id callback x2
  assume "i < length (pending_image_info_calls s)"
  then show "((Suc i, s), (i, s)) \<in> inv_image (less_than <*lex*> less_than)
    (\<lambda>(i, s). (queue_weight (pending_image_info_calls s), length (pending_image_info_calls s) - i))"
    by simp
next
  fix i :: nat and s :: image_data_class and x illust_id callback illust_data ud
  assume i: "i < length (pending_image_info_calls s)"
    and x: "(illust_id, callback) = pending_image_info_calls s ! i"
  let ?q = "pending_image_info_calls s"
  have load_user: "pending_image_info_calls (load_user_info t u) = pending_image_info_calls t" for t u
    by (simp add: load_user_info_def)
  have load_image: "pending_image_info_calls (load_image_info t k) = pending_image_info_calls t" for t k
    by (simp add: load_image_info_def Let_def load_user split: option.splits)
  have pushed: "queue_weight (pending_image_info_calls (perform_calls t calls)) =
      queue_weight (pending_image_info_calls t) + image_calls_weight calls" for t calls
  proof (induction calls arbitrary: t)
    case Nil
    show ?case by simp
  next
    case (Cons c calls)
    have one: "queue_weight (pending_image_info_calls (perform_call t c)) =
        queue_weight (pending_image_info_calls t) + image_calls_weight [c]"
    proof (cases c)
      case (Call_get_image_info k cb)
      then show ?thesis
        by (cases cb) (simp_all add: get_image_info_def load_image queue_weight_def)
    next
      case (Call_get_user_info k cb)
      then show ?thesis
        by (cases cb) (simp_all add: get_user_info_def load_user)
    qed
    have app: "image_calls_weight (c # calls) = image_calls_weight [c] + image_calls_weight calls"
    proof (cases c)
      case (Call_get_image_info k cb)
      then show ?thesis by (cases cb) simp_all
    next
      case (Call_get_user_info k cb)
      then show ?thesis by simp
    qed
    show ?case by (subst app) (simp add: Cons.IH one)
  qed
  have less: "image_calls_weight (calls_of cb) < size cb" for cb
  proof (cases cb)
    case (Callback n calls)
    have "image_calls_weight cs \<le> size_list size cs" for cs :: "call list"
      by (induction cs rule: image_calls_weight.induct) simp_all
    then show ?thesis by (simp add: Callback less_Suc_eq_le)
  qed
  have split: "?q = take i ?q @ (illust_id, callback) # drop (Suc i) ?q"
    using i x by (simp add: id_take_nth_drop[symmetric])
  have "queue_weight ?q = queue_weight (take i ?q @ drop (Suc i) ?q) + size callback"
    by (subst (1) split) (simp add: queue_weight_def)
  then have "queue_weight (take i ?q @ drop (Suc i) ?q) + image_calls_weight (calls_of callback)
      < queue_weight ?q"
    using less[of callback] by simp
  then show "((i,
       perform_calls
        (s\<lparr>image_data := (image_data s)(illust_id \<mapsto> illust_data\<lparr>userInfo := Some ud\<rparr>),
             pending_image_info_calls := take i ?q @ drop (Suc i) ?q,
             invoked := invoked s @ [Image_callback (name_of callback) (illust_data\<lparr>userInfo := Some ud\<rparr>)]\<rparr>)
        (calls_of callback)),
      (i, s)) \<in> inv_image (less_than <*lex*> less_than)
    (\<lambda>(i, s). (queue_weight (pending_image_info_calls s), length (pending_image_info_calls s) - i))"
    by (simp add: pushed)
qed

text \<open>The second loop, over \<open>this.pending_user_info_calls\<close>, in the same way.\<close>

function user_info_calls_loop :: "nat \<Rightarrow> image_data_class \<Rightarrow> image_data_class" where
  "user_info_calls_loop i s =
     (if i < length (pending_user_info_calls s) then
        (case pending_user_info_calls s ! i of (user_id, callback) \<Rightarrow>
           (case user_data s user_id of
              None \<Rightarrow> user_info_calls_loop (Suc i) s
            | Some ud \<Rightarrow>
                user_info_calls_loop i
                  (perform_calls
                     (s\<lparr>pending_user_info_calls :=
                          take i (pending_user_info_calls s) @ drop (Suc i) (pending_user_info_calls s),
                        invoked := invoked s @ [User_callback (name_of callback) ud]\<rparr>)
                     (calls_of callback))))
      else s)"
  by pat_completeness auto
termination
proof (relation "inv_image (less_than <*lex*> less_than)
    (\<lambda>(i, s). (queue_weight (pending_user_info_calls s), length (pending_user_info_calls s) - i))")
  show "wf (inv_image (less_than <*lex*> less_than)
    (\<lambda>(i, s). (queue_weight (pending_user_info_calls s), length (pending_user_info_calls s) - i)))"
    by (intro wf_inv_image wf_lex_prod wf_less_than)
next
  fix i :: nat and s :: image_data_class and x user_id callback
  assume "i < length (pending_user_info_calls s)"
  then show "((Suc i, s), (i, s)) \<in> inv_image (less_than <*lex*> less_than)
    (\<lambda>(i, s). (queue_weight (pending_user_info_calls s), length (pending_user_info_calls s) - i))"
    by simp
next
  fix i :: nat and s :: image_data_class and x user_id callback ud
  assume i: "i < length (pending_user_info_calls s)"
    and x: "(user_id, callback) = pending_user_info_calls s ! i"
  let ?q = "pending_user_info_calls s"
  have load_user: "pending_user_info_calls (load_user_info t u) = pending_user_info_calls t" for t u
    by (simp add: load_user_info_def)
  have load_image: "pending_user_info_calls (load_image_info t k) = pending_user_info_calls t" for t k
    by (simp add: load_image_info_def Let_def load_user split: option.splits)
  have pushed: "queue_weight (pending_user_info_calls (perform_calls t calls)) =
      queue_weight (pending_user_info_calls t) + user_calls_weight calls" for t calls
  proof (induction calls arbitrary: t)
    case Nil
    show ?case by simp
  next
    case (Cons c calls)
    have one: "queue_weight (pending_user_info_calls (perform_call t c)) =
        queue_weight (pending_user_info_calls t) + user_calls_weight [c]"
    proof (cases c)
      case (Call_get_image_info k cb)
      then show ?thesis
        by (cases cb) (simp_all add: get_image_info_def load_image)
    next
      case (Call_get_user_info k cb)
      then show ?thesis
        by (cases cb) (simp_all add: get_user_info_def load_user queue_weight_def)
    qed
    have app: "user_calls_weight (c # calls) = user_calls_weight [c] + user_calls_weight calls"
    proof (cases c)
      case (Call_get_image_info k cb)
      then show ?thesis by simp
    next
      case (Call_get_user_info k cb)
      then show ?thesis by (cases cb) simp_all
    qed
    show ?case by (subst app) (simp add: Cons.IH one)
  qed
  have less: "user_calls_weight (calls_of cb) < size cb" for cb
  proof (cases cb)
    case (Callback n calls)
    have "user_calls_weight cs \<le> size_list size cs" for cs :: "call list"
      by (induction cs rule: user_calls_weight.induct) simp_all
    then show ?thesis by (simp add: Callback less_Suc_eq_le)
  qed
  have split: "?q = take i ?q @ (user_id, callback) # drop (Suc i) ?q"
    using i x by (simp add: id_take_nth_drop[symmetric])
  have "queue_weight ?q = queue_weight (take i ?q @ drop (Suc i) ?q) + size callback"
    by (subst (1) split) (simp add: queue_weight_def)
  then have "queue_weight (take i ?q @ drop (Suc i) ?q) + user_calls_weight (calls_of callback)
      < queue_weight ?q"
    using less[of callback] by simp
  then show "((i,
       perform_calls
        (s\<lparr>pending_user_info_calls := take i ?q @ drop (Suc i) ?q,
             invoked := invoked s @ [User_callback (name_of callback) ud]\<rparr>)
        (calls_of callback)),
      (i, s)) \<in> inv_image (less_than <*lex*> less_than)
    (\<lambda>(i, s). (queue_weight (pending_user_info_calls s), length (pending_user_info_calls s) - i))"
    by (simp add: pushed)
qed

declare image_info_calls_loop.simps [simp del]
declare user_info_calls_loop.simps [simp del]

definition call_pending_callbacks :: "image_data_class \<Rightarrow> image_data_class" where
  "call_pending_callbacks s = user_info_calls_loop 0 (image_info_calls_loop 0 s)"

subsection \<open>Completion handlers and injection\<close>

text \<open>
  The closure \<open>finished_loading_image_data\<close> of \<open>loaded_image_info\<close>; \<open>illust_id\<close> is
  the \<open>illustId\<close> of the record the closure holds.
\<close>

definition finished_loading_image_data :: "image_data_class \<Rightarrow> illust_info \<Rightarrow> image_data_class" where
  "finished_loading_image_data s illust_data =
     s\<lparr>loading_image_data_ids := (loading_image_data_ids s)(illustId illust_data := None),
       image_data := (image_data s)(illustId illust_data \<mapsto> illust_data),
       timeouts := timeouts s @ [Load_user_info_later (illust_info.userId illust_data)]\<rparr>"

definition loaded_image_info :: "image_data_class \<Rightarrow> illust_info result \<Rightarrow> image_data_class" where
  "loaded_image_info s illust_result =
     (if error illust_result then s
      else
        (let illust_data = body illust_result;
             illust_id = illustId illust_data;
             s1 = s\<lparr>loading_image_data_ids := (loading_image_data_ids s)(illust_id \<mapsto> True)\<rparr>
         in if illustType illust_data = 2 then
              s1\<lparr>requests := requests s1 @ [Fetch_ugoira_metadata illust_id illust_data]\<rparr>
            else finished_loading_image_data s1 illust_data))"

text \<open>
  The function handed to \<open>helpers.fetch_ugoira_metadata\<close>: it stores the body of the
  result in the record and finishes, without reading the \<open>error\<close> flag.
\<close>

definition fetch_ugoira_metadata_callback ::
  "image_data_class \<Rightarrow> illust_info \<Rightarrow> ugoira_metadata option result \<Rightarrow> image_data_class" where
  "fetch_ugoira_metadata_callback s illust_data ugoira_result =
     finished_loading_image_data s (illust_data\<lparr>ugoiraMetadata := body ugoira_result\<rparr>)"

definition loaded_user_info :: "image_data_class \<Rightarrow> user_info result \<Rightarrow> image_data_class" where
  "loaded_user_info s user_result =
     (if error user_result then s
      else
        (let ud = body user_result;
             user_id = user_info.userId ud
         in call_pending_callbacks
              (s\<lparr>loading_user_data_ids := (loading_user_data_ids s)(user_id := None),
                 user_data := (user_data s)(user_id \<mapsto> ud)\<rparr>)))"

definition add_illust_data :: "image_data_class \<Rightarrow> illust_info \<Rightarrow> image_data_class" where
  "add_illust_data s illust_data = loaded_image_info s \<lparr>error = False, body = illust_data\<rparr>"

definition add_user_data :: "image_data_class \<Rightarrow> user_info \<Rightarrow> image_data_class" where
  "add_user_data s ud = loaded_user_info s \<lparr>error = False, body = ud\<rparr>"

definition set_user_id_for_illust_id ::
  "image_data_class \<Rightarrow> ident \<Rightarrow> ident \<Rightarrow> image_data_class" where
  "set_user_id_for_illust_id s illust_id user_id =
     s\<lparr>illust_id_to_user_id := (illust_id_to_user_id s)(illust_id \<mapsto> user_id)\<rparr>"

subsection \<open>Executions\<close>

text \<open>
  An execution of the cache is a sequence of events: the calls of its public methods from
  outside a callback (those made inside a callback are part of the callback), the
  completion of a fetch (the transport calls the handler with a result), and the oldest
  pending zero-delay timeout running. \<open>Ugoira_response i r\<close> completes the
  \<open>fetch_ugoira_metadata\<close> call that is entry \<open>i\<close> of the request log. The model lets a
  completion arrive at any time; the executions of the program are among those of the model.
\<close>

datatype event =
    Get_image_info ident "callback option"
  | Get_user_info ident "callback option"
  | Add_illust_data illust_info
  | Add_user_data user_info
  | Set_user_id_for_illust_id ident ident
  | Image_response "illust_info result"
  | User_response "user_info result"
  | Ugoira_response nat "ugoira_metadata option result"
  | Timeout_fires

definition run_timeout :: "image_data_class \<Rightarrow> image_data_class" where
  "run_timeout s =
     (case timeouts s of
        [] \<Rightarrow> s
      | Load_user_info_later user_id # rest \<Rightarrow> load_user_info (s\<lparr>timeouts := rest\<rparr>) user_id
      | Call_pending_callbacks_later # rest \<Rightarrow> call_pending_callbacks (s\<lparr>timeouts := rest\<rparr>))"

definition ugoira_response ::
  "image_data_class \<Rightarrow> nat \<Rightarrow> ugoira_metadata option result \<Rightarrow> image_data_class" where
  "ugoira_response s i r =
     (if i < length (requests s) then
        (case requests s ! i of
           Fetch_ugoira_metadata illust_id illust_data \<Rightarrow> fetch_ugoira_metadata_callback s illust_data r
         | Get_request url h \<Rightarrow> s)
      else s)"

fun step :: "image_data_class \<Rightarrow> event \<Rightarrow> image_data_class" where
  "step s (Get_image_info illust_id callback) = get_image_info s illust_id callback"
| "step s (Get_user_info user_id callback) = get_user_info s user_id callback"
| "step s (Add_illust_data illust_data) = add_illust_data s illust_data"
| "step s (Add_user_data ud) = add_user_data s ud"
| "step s (Set_user_id_for_illust_id illust_id user_id) = set_user_id_for_illust_id s illust_id user_id"
| "step s (Image_response r) = loaded_image_info s r"
| "step s (User_response r) = loaded_user_info s r"
| "step s (Ugoira_response i r) = ugoira_response s i r"
| "step s Timeout_fires = run_timeout s"

definition run :: "event list \<Rightarrow> image_data_class" where
  "run evs = foldl step constructor evs"

section \<open>The preloader: \<open>image_preloader\<close>\<close>

subsection \<open>A single fetch\<close>

text \<open>
  The classes \<open>_img_preloader\<close> and \<open>_xhr_preloader\<close> hold a URL and, once started, an
  \<open>AbortController\<close>; \<open>abort_controller\<close> says whether the object holds one. \<open>start\<close>
  creates the controller before it awaits the transfer; \<open>cancel\<close> aborts and drops it.
\<close>

datatype strategy = Img_preloader | Xhr_preloader

record preloader =
  url :: string
  strategy :: strategy
  abort_controller :: bool

definition img_preloader :: "string \<Rightarrow> preloader" where
  "img_preloader u = \<lparr>url = u, strategy = Img_preloader, abort_controller = False\<rparr>"

definition xhr_preloader :: "string \<Rightarrow> preloader" where
  "xhr_preloader u = \<lparr>url = u, strategy = Xhr_preloader, abort_controller = False\<rparr>"

definition start :: "preloader \<Rightarrow> preloader" where
  "start p = p\<lparr>abort_controller := True\<rparr>"

definition cancel :: "preloader \<Rightarrow> preloader" where
  "cancel p = (if \<not> abort_controller p then p else p\<lparr>abort_controller := False\<rparr>)"

subsection \<open>The singleton\<close>

text \<open>
  The muting singleton is not part of these sources; its two predicates are parameters.
\<close>

record muting =
  any_tag_muted :: "string list \<Rightarrow> bool"
  is_muted_user_id :: "ident \<Rightarrow> bool"

datatype js_error = TypeError

text \<open>
  \<open>this.preloads\<close> is a list of objects, and \<open>indexOf\<close> compares them by identity. An
  entry of \<open>preloads\<close> is therefore an object identity paired with the state of the
  object; \<open>next_preloader\<close> is the identity the next started object gets. Only objects that
  have been started are ever compared, so the identity is assigned at the start.
  \<open>thumbs_preloaded\<close> logs the calls of \<open>helpers.preload_images\<close>.
\<close>

record image_preloader =
  preloads :: "(nat \<times> preloader) list"
  recently_preloaded_urls :: "string list"
  current_illust_id :: "ident option"
  current_illust_info :: "illust_info option"
  speculative_illust_id :: "ident option"
  speculative_illust_info :: "illust_info option"
  thumbs_preloaded :: "string list list"
  next_preloader :: nat

definition preloader_constructor :: image_preloader where
  "preloader_constructor =
     \<lparr>preloads = [], recently_preloaded_urls = [],
      current_illust_id = None, current_illust_info = None,
      speculative_illust_id = None, speculative_illust_info = None,
      thumbs_preloaded = [], next_preloader = 0\<rparr>"

subsection \<open>\<open>create_preloaders_for_illust\<close>\<close>

text \<open>The loop over \<open>illust_data.mangaPages\<close> that pushes one preloader per page.\<close>

fun push_small_pages :: "manga_page list \<Rightarrow> preloader list \<Rightarrow> preloader list" where
  "push_small_pages [] results = results"
| "push_small_pages (page # pages) results =
     push_small_pages pages (results @ [img_preloader (small (manga_page.urls page))])"

text \<open>
  For an animation the function reads \<open>illust_data.ugoiraMetadata.originalSrc\<close>, which
  throws when the metadata is missing.
\<close>

definition create_preloaders_for_illust :: "muting \<Rightarrow> illust_info \<Rightarrow> js_error + preloader list" where
  "create_preloaders_for_illust m illust_data =
     (if any_tag_muted m (tags illust_data) then Inr []
      else if is_muted_user_id m (illust_info.userId illust_data) then Inr []
      else if illustType illust_data = 2 then
        (case ugoiraMetadata illust_data of
           None \<Rightarrow> Inl TypeError
         | Some um \<Rightarrow>
             Inr ([] @ [xhr_preloader (originalSrc um)]
                     @ [img_preloader (original (illust_info.urls illust_data))]))
      else
        (let results = push_small_pages (mangaPages illust_data) []
         in if length (mangaPages illust_data) \<ge> 1 then
              Inr (results @ [img_preloader (original (manga_page.urls (mangaPages illust_data ! 0)))])
            else Inr results))"

subsection \<open>\<open>check_fetch_queue\<close>\<close>

fun find_active_preload_by_url :: "(nat \<times> preloader) list \<Rightarrow> string \<Rightarrow> (nat \<times> preloader) option" where
  "find_active_preload_by_url [] u = None"
| "find_active_preload_by_url (preload # rest) u =
     (if url (snd preload) = u then Some preload else find_active_preload_by_url rest u)"

text \<open>The list \<open>wanted_preloads\<close>: the current illustration first, then the speculative one.\<close>

definition wanted_preloads :: "muting \<Rightarrow> image_preloader \<Rightarrow> js_error + preloader list" where
  "wanted_preloads m s =
     (case (case current_illust_info s of
              None \<Rightarrow> Inr []
            | Some info \<Rightarrow>
                (case create_preloaders_for_illust m info of
                   Inl e \<Rightarrow> Inl e
                 | Inr created \<Rightarrow> Inr ([] @ created))) of
        Inl e \<Rightarrow> Inl e
      | Inr wanted \<Rightarrow>
          (case speculative_illust_info s of
             None \<Rightarrow> Inr wanted
           | Some info \<Rightarrow>
               (case create_preloaders_for_illust m info of
                  Inl e \<Rightarrow> Inl e
                | Inr created \<Rightarrow> Inr (wanted @ created))))"

text \<open>The loop that keeps the preloads whose URL is not in \<open>recently_preloaded_urls\<close>.\<close>

fun push_not_recent :: "string list \<Rightarrow> preloader list \<Rightarrow> preloader list \<Rightarrow> preloader list" where
  "push_not_recent recent [] filtered_preloads = filtered_preloads"
| "push_not_recent recent (preload # rest) filtered_preloads =
     push_not_recent recent rest
       (if url preload \<notin> set recent then filtered_preloads @ [preload] else filtered_preloads)"

definition concurrent_preloads :: nat where
  "concurrent_preloads = 5"

text \<open>
  \<open>filtered_preloads\<close> as it stands after \<open>splice(concurrent_preloads)\<close>. (The function
  returns between the filter and the splice when the list is empty; the splice of an empty
  list is empty.)
\<close>

definition filtered_preloads :: "muting \<Rightarrow> image_preloader \<Rightarrow> js_error + preloader list" where
  "filtered_preloads m s =
     (case wanted_preloads m s of
        Inl e \<Rightarrow> Inl e
      | Inr wanted \<Rightarrow>
          Inr (take concurrent_preloads (push_not_recent (recently_preloaded_urls s) wanted [])))"

text \<open>The loop that returns as soon as one wanted URL is found in \<open>this.preloads\<close>.\<close>

fun any_preload_active :: "(nat \<times> preloader) list \<Rightarrow> preloader list \<Rightarrow> bool" where
  "any_preload_active active [] = False"
| "any_preload_active active (preload # rest) =
     (if find_active_preload_by_url active (url preload) \<noteq> None then True
      else any_preload_active active rest)"

text \<open>
  The last loop: every object of \<open>this.preloads\<close> that is not already in
  \<open>updated_preload_list\<close> is cancelled and pushed.
\<close>

fun cancel_unwanted ::
  "(nat \<times> preloader) list \<Rightarrow> (nat \<times> preloader) list \<Rightarrow> (nat \<times> preloader) list" where
  "cancel_unwanted [] updated_preload_list = updated_preload_list"
| "cancel_unwanted (preload # rest) updated_preload_list =
     (if fst preload \<in> fst ` set updated_preload_list then cancel_unwanted rest updated_preload_list
      else cancel_unwanted rest (updated_preload_list @ [(fst preload, cancel (snd preload))]))"

definition check_fetch_queue :: "muting \<Rightarrow> image_preloader \<Rightarrow> js_error + image_preloader" where
  "check_fetch_queue m s =
     (case filtered_preloads m s of
        Inl e \<Rightarrow> Inl e
      | Inr filtered \<Rightarrow>
          (case filtered of
             [] \<Rightarrow> Inr s
           | preload # rest \<Rightarrow>
               if any_preload_active (preloads s) filtered then Inr s
               else
                 Inr (s\<lparr>preloads :=
                          cancel_unwanted (preloads s) ([] @ [(next_preloader s, start preload)]),
                        next_preloader := Suc (next_preloader s)\<rparr>)))"

text \<open>
  The function handed to \<open>finally\<close> for the started object \<open>preload\<close>: it runs when the
  transfer of that object settles, with success or with failure. The second component of
  the result is the exception that leaves the function, if any.
\<close>

fun index_of :: "nat \<Rightarrow> (nat \<times> preloader) list \<Rightarrow> nat option" where
  "index_of i [] = None"
| "index_of i (preload # rest) =
     (if fst preload = i then Some 0 else map_option Suc (index_of i rest))"

definition preload_settled ::
  "muting \<Rightarrow> image_preloader \<Rightarrow> nat \<times> preloader \<Rightarrow> image_preloader \<times> js_error option" where
  "preload_settled m s preload =
     (let pushed = recently_preloaded_urls s @ [url (snd preload)];
          s1 = s\<lparr>recently_preloaded_urls := drop (length pushed - 1000) pushed\<rparr>
      in case index_of (fst preload) (preloads s1) of
           None \<Rightarrow> (s1, None)
         | Some idx \<Rightarrow>
             (let s2 = s1\<lparr>preloads := take idx (preloads s1) @ drop (Suc idx) (preloads s1)\<rparr>
              in case check_fetch_queue m s2 of
                   Inl e \<Rightarrow> (s2, Some e)
                 | Inr s3 \<Rightarrow> (s3, None)))"

subsection \<open>The setters\<close>

definition preload_thumbs :: "image_preloader \<Rightarrow> illust_info \<Rightarrow> image_preloader" where
  "preload_thumbs s illust_info =
     (if pageCount illust_info < 2 then s
      else s\<lparr>thumbs_preloaded :=
               thumbs_preloaded s @ [map (\<lambda>page. small (manga_page.urls page)) (mangaPages illust_info)]\<rparr>)"

text \<open>
  \<open>set_current_image\<close> is an \<open>async\<close> method with one \<open>await\<close>. It is modelled in two
  parts. \<open>set_current_image\<close> is the part before the \<open>await\<close>, including the call of
  \<open>get_image_info\<close> on the cache (without a callback). \<open>set_current_image_resumed\<close> is
  the part after it: it takes the identifier that the call captured and the value that
  the \<open>await\<close> yields, a record or nothing. (\<open>get_image_info\<close> of the class
  \<open>image_data\<close> above has no return value; the preloader is written for one that yields
  the record. Both are covered.) With nothing, \<open>preload_thumbs\<close> reads a property of
  \<open>undefined\<close> and throws.
\<close>

definition set_current_image ::
  "image_data_class \<Rightarrow> image_preloader \<Rightarrow> ident option \<Rightarrow> image_data_class \<times> image_preloader" where
  "set_current_image c s illust_id =
     (if current_illust_id s = illust_id then (c, s)
      else
        (let s1 = s\<lparr>current_illust_id := illust_id, current_illust_info := None\<rparr>
         in case current_illust_id s1 of
              None \<Rightarrow> (c, s1)
            | Some i \<Rightarrow> (get_image_info c i None, s1)))"

definition set_current_image_resumed ::
  "muting \<Rightarrow> image_preloader \<Rightarrow> ident \<Rightarrow> illust_info option \<Rightarrow> image_preloader \<times> js_error option" where
  "set_current_image_resumed m s illust_id illust_info =
     (if current_illust_id s \<noteq> Some illust_id \<or> current_illust_info s \<noteq> None then (s, None)
      else
        (let s1 = s\<lparr>current_illust_info := illust_info\<rparr>
         in case illust_info of
              None \<Rightarrow> (s1, Some TypeError)
            | Some info \<Rightarrow>
                (let s2 = preload_thumbs s1 info
                 in case check_fetch_queue m s2 of
                      Inl e \<Rightarrow> (s2, Some e)
                    | Inr s3 \<Rightarrow> (s3, None))))"

definition set_speculative_image ::
  "image_data_class \<Rightarrow> image_preloader \<Rightarrow> ident option \<Rightarrow> image_data_class \<times> image_preloader" where
  "set_speculative_image c s illust_id =
     (if speculative_illust_id s = illust_id then (c, s)
      else
        (let s1 = s\<lparr>speculative_illust_id := illust_id, speculative_illust_info := None\<rparr>
         in case speculative_illust_id s1 of
              None \<Rightarrow> (c, s1)
            | Some i \<Rightarrow> (get_image_info c i None, s1)))"

definition set_speculative_image_resumed ::
  "muting \<Rightarrow> image_preloader \<Rightarrow> ident \<Rightarrow> illust_info option \<Rightarrow> image_preloader \<times> js_error option" where
  "set_speculative_image_resumed m s illust_id illust_info =
     (if speculative_illust_id s \<noteq> Some illust_id \<or> speculative_illust_info s \<noteq> None then (s, None)
      else
        (let s1 = s\<lparr>speculative_illust_info := illust_info\<rparr>
         in case illust_info of
              None \<Rightarrow> (s1, Some TypeError)
            | Some info \<Rightarrow>
                (let s2 = preload_thumbs s1 info
                 in case check_fetch_queue m s2 of
                      Inl e \<Rightarrow> (s2, Some e)
                    | Inr s3 \<Rightarrow> (s3, None))))"

subsection \<open>Executions of the preloader\<close>

text \<open>
  The events of the preloader: a call of a setter, the resumption of a setter after its
  \<open>await\<close> (with the identifier it captured and the value awaited), and the settlement of
  a started preload. An exception that leaves a handler is dropped, as an unhandled
  rejection is; the state it leaves stays. The model lets a resumption or a settlement
  arrive at any time; the executions of the program are among those of the model.
\<close>

datatype preloader_event =
    Set_current_image "ident option"
  | Current_image_resumed ident "illust_info option"
  | Set_speculative_image "ident option"
  | Speculative_image_resumed ident "illust_info option"
  | Preload_settled "nat \<times> preloader"

fun preloader_step ::
  "muting \<Rightarrow> image_data_class \<times> image_preloader \<Rightarrow> preloader_event \<Rightarrow> image_data_class \<times> image_preloader" where
  "preloader_step m (c, s) (Set_current_image illust_id) = set_current_image c s illust_id"
| "preloader_step m (c, s) (Current_image_resumed illust_id illust_info) =
     (c, fst (set_current_image_resumed m s illust_id illust_info))"
| "preloader_step m (c, s) (Set_speculative_image illust_id) = set_speculative_image c s illust_id"
| "preloader_step m (c, s) (Speculative_image_resumed illust_id illust_info) =
     (c, fst (set_speculative_image_resumed m s illust_id illust_info))"
| "preloader_step m (c, s) (Preload_settled preload) = (c, fst (preload_settled m s preload))"

definition preloader_run :: "muting \<Rightarrow> preloader_event list \<Rightarrow> image_data_class \<times> image_preloader" where
  "preloader_run m evs = foldl (preloader_step m) (constructor, preloader_constructor) evs"

section \<open>Notions used to state the properties of the cache\<close>

text \<open>
  The number of fetches of the illustration \<open>k\<close> (of the user \<open>k\<close>) that have been sent so
  far: the entries of the request log for that URL and handler.
\<close>

definition illust_fetches :: "image_data_class \<Rightarrow> ident \<Rightarrow> nat" where
  "illust_fetches s k =
     count_list (requests s) (Get_request (''/ajax/illust/'' @ Rep_ident k) Loaded_image_info)"

definition user_fetches :: "image_data_class \<Rightarrow> ident \<Rightarrow> nat" where
  "user_fetches s k =
     count_list (requests s) (Get_request (''/ajax/user/'' @ Rep_ident k) Loaded_user_info)"

text \<open>
  The invariant behind the fetch ledger: an identifier has been fetched at most once, and
  one that has been fetched is marked as loading or is cached.
\<close>

definition dedup_inv :: "image_data_class \<Rightarrow> bool" where
  "dedup_inv s \<longleftrightarrow>
     (\<forall>k. illust_fetches s k \<le> 1 \<and>
          (illust_fetches s k = 1 \<longrightarrow> loading_image_data_ids s k = Some True \<or> image_data s k \<noteq> None)) \<and>
     (\<forall>k. user_fetches s k \<le> 1 \<and>
          (user_fetches s k = 1 \<longrightarrow> loading_user_data_ids s k = Some True \<or> user_data s k \<noteq> None))"

section \<open>Notions used to state the properties of the preloader\<close>

text \<open>
  \<open>preloads_wf\<close>: the objects of \<open>this.preloads\<close> are pairwise distinct and were all
  created before the next one. \<open>running\<close>: the objects of the list that hold an
  \<open>AbortController\<close>, that is, those started and not cancelled. \<open>still_listed active p\<close>:
  the object \<open>p\<close> is in the list \<open>active\<close>, with its URL and class, and has not been started
  anew. \<open>cancelled\<close>: the object after \<open>cancel()\<close>. \<open>serial_inv\<close>: the list is well
  formed and at most one of its objects is running.
\<close>

definition preloads_wf :: "image_preloader \<Rightarrow> bool" where
  "preloads_wf s \<longleftrightarrow>
     distinct (map fst (preloads s)) \<and> list_all (\<lambda>preload. fst preload < next_preloader s) (preloads s)"

definition running :: "image_preloader \<Rightarrow> (nat \<times> preloader) list" where
  "running s = filter (\<lambda>preload. abort_controller (snd preload)) (preloads s)"

definition still_listed :: "(nat \<times> preloader) list \<Rightarrow> nat \<times> preloader \<Rightarrow> bool" where
  "still_listed active preload =
     list_ex (\<lambda>listed. fst listed = fst preload \<and> url (snd listed) = url (snd preload) \<and>
                       strategy (snd listed) = strategy (snd preload) \<and>
                       (abort_controller (snd listed) \<longrightarrow> abort_controller (snd preload)))
       active"

definition cancelled :: "nat \<times> preloader \<Rightarrow> nat \<times> preloader" where
  "cancelled preload = (fst preload, cancel (snd preload))"

definition serial_inv :: "image_preloader \<Rightarrow> bool" where
  "serial_inv s \<longleftrightarrow> preloads_wf s \<and> length (running s) \<le> 1"

text \<open>
  \<open>stored_for_current evs s\<close>: the record stored as \<open>current_illust_info\<close>, if there is
  one, is a record that the execution \<open>evs\<close> delivered to a call of \<open>set_current_image\<close>
  made for the identifier that is now \<open>current_illust_id\<close>.
\<close>

definition stored_for_current :: "preloader_event list \<Rightarrow> image_preloader \<Rightarrow> bool" where
  "stored_for_current evs s \<longleftrightarrow>
     (case current_illust_info s of
        None \<Rightarrow> True
      | Some info \<Rightarrow>
          (case current_illust_id s of
             None \<Rightarrow> False
           | Some k \<Rightarrow> Current_image_resumed k (Some info) \<in> set evs))"

section \<open>Concrete records\<close>

text \<open>
  Four identifiers, a user, a one-page illustration and an animation of that user, for
  the concrete executions below.
\<close>

lift_definition id_1 :: ident is "''1''"
  by (simp add: object_prototype_members_def)

lift_definition id_2 :: ident is "''2''"
  by (simp add: object_prototype_members_def)

lift_definition id_3 :: ident is "''3''"
  by (simp add: object_prototype_members_def)

lift_definition id_5 :: ident is "''5''"
  by (simp add: object_prototype_members_def)

definition user_5 :: user_info where
  "user_5 = \<lparr>user_info.userId = id_5, name = ''owner''\<rparr>"

definition illust_1 :: illust_info where
  "illust_1 =
     \<lparr>illustId = id_1, userId = id_5, illustType = 0, tags = [''landscape''],
      urls = \<lparr>small = ''s1'', original = ''o1''\<rparr>,
      mangaPages = [\<lparr>manga_page.urls = \<lparr>small = ''s1'', original = ''o1''\<rparr>\<rparr>],
      pageCount = 1, ugoiraMetadata = None, userInfo = None\<rparr>"

definition ugoira_2 :: illust_info where
  "ugoira_2 =
     \<lparr>illustId = id_2, userId = id_5, illustType = 2, tags = [''animation''],
      urls = \<lparr>small = ''s2'', original = ''o2''\<rparr>,
      mangaPages = [\<lparr>manga_page.urls = \<lparr>small = ''s2'', original = ''o2''\<rparr>\<rparr>],
      pageCount = 1, ugoiraMetadata = None, userInfo = None\<rparr>"


text \<open>
  For the preloader: a muting collaborator that mutes nothing and one that mutes a tag, the
  animation with its metadata loaded, an illustration of three pages, and a preloader that
  shows illustration 1 and looks ahead to the animation 2.
\<close>

definition no_muting :: muting where
  "no_muting = \<lparr>any_tag_muted = (\<lambda>tags. False), is_muted_user_id = (\<lambda>user_id. False)\<rparr>"

definition mute_landscape :: muting where
  "mute_landscape =
     \<lparr>any_tag_muted = (\<lambda>tags. ''landscape'' \<in> set tags), is_muted_user_id = (\<lambda>user_id. False)\<rparr>"

definition ugoira_2_loaded :: illust_info where
  "ugoira_2_loaded = ugoira_2\<lparr>ugoiraMetadata := Some \<lparr>originalSrc = ''z2''\<rparr>\<rparr>"

definition manga_3 :: illust_info where
  "manga_3 =
     \<lparr>illustId = id_3, userId = id_5, illustType = 1, tags = [''comic''],
      urls = \<lparr>small = ''s3a'', original = ''o3a''\<rparr>,
      mangaPages = [\<lparr>manga_page.urls = \<lparr>small = ''s3a'', original = ''o3a''\<rparr>\<rparr>,
                    \<lparr>manga_page.urls = \<lparr>small = ''s3b'', original = ''o3b''\<rparr>\<rparr>,
                    \<lparr>manga_page.urls = \<lparr>small = ''s3c'', original = ''o3c''\<rparr>\<rparr>],
      pageCount = 3, ugoiraMetadata = None, userInfo = None\<rparr>"

definition viewing_1_then_2 :: image_preloader where
  "viewing_1_then_2 =
     preloader_constructor
       \<lparr>current_illust_id := Some id_1, current_illust_info := Some illust_1,
        speculative_illust_id := Some id_2, speculative_illust_info := Some ugoira_2_loaded\<rparr>"

text \<open>
  A preloader that shows illustration 1 and is loading its first preview, and one that has
  moved on to illustration 3 while that preview is still loading.
\<close>

definition viewing_1_running :: image_preloader where
  "viewing_1_running =
     preloader_constructor
       \<lparr>preloads := [(0, start (img_preloader ''s1''))],
        current_illust_id := Some id_1, current_illust_info := Some illust_1,
        next_preloader := 1\<rparr>"

definition viewing_3_after_1 :: image_preloader where
  "viewing_3_after_1 =
     preloader_constructor
       \<lparr>preloads := [(0, start (img_preloader ''s1''))],
        current_illust_id := Some id_3, current_illust_info := Some manga_3,
        next_preloader := 1\<rparr>"

text \<open>A preloader whose current illustration has just become 3.\<close>

definition moved_to_3 :: image_preloader where
  "moved_to_3 = preloader_constructor\<lparr>current_illust_id := Some id_3\<rparr>"

section \<open>Properties of the cache\<close>

subsection \<open>The concrete identifiers\<close>

declare id_1.rep_eq [simp] id_2.rep_eq [simp] id_3.rep_eq [simp] id_5.rep_eq [simp]

lemma concrete_identifiers_distinct [simp]:
  "id_1 \<noteq> id_2" "id_1 \<noteq> id_3" "id_1 \<noteq> id_5"
  "id_2 \<noteq> id_1" "id_2 \<noteq> id_3" "id_2 \<noteq> id_5"
  "id_3 \<noteq> id_1" "id_3 \<noteq> id_2" "id_3 \<noteq> id_5"
  "id_5 \<noteq> id_1" "id_5 \<noteq> id_2" "id_5 \<noteq> id_3"
  by (simp_all add: Rep_ident_inject[symmetric])

subsection \<open>At most one fetch per identifier\<close>

lemma dedup_inv_queue:
  "dedup_inv (s\<lparr>pending_image_info_calls := p\<rparr>) = dedup_inv s"
  "dedup_inv (s\<lparr>pending_user_info_calls := q\<rparr>) = dedup_inv s"
  "dedup_inv (s\<lparr>timeouts := t\<rparr>) = dedup_inv s"
  "dedup_inv (s\<lparr>illust_id_to_user_id := h\<rparr>) = dedup_inv s"
  "dedup_inv (s\<lparr>invoked := v\<rparr>) = dedup_inv s"
  unfolding dedup_inv_def illust_fetches_def user_fetches_def by simp_all

lemma dedup_inv_load_user_info: "dedup_inv s \<Longrightarrow> dedup_inv (load_user_info s u)"
  unfolding dedup_inv_def load_user_info_def illust_fetches_def user_fetches_def
  by (auto simp: le_Suc_eq Rep_ident_inject)

lemma dedup_inv_load_image_info: "dedup_inv s \<Longrightarrow> dedup_inv (load_image_info s k)"
proof -
  assume a: "dedup_inv s"
  define s1 where "s1 = (case illust_id_to_user_id s k of None \<Rightarrow> s | Some c \<Rightarrow> load_user_info s c)"
  have i1: "dedup_inv s1" using a by (auto simp: s1_def dedup_inv_load_user_info split: option.splits)
  have "load_image_info s k =
     (if loading_image_data_ids s1 k = Some True then s1
         else (case image_data s1 k of
                 Some illust_data \<Rightarrow> load_user_info s1 (illust_info.userId illust_data)
               | None \<Rightarrow>
                   s1\<lparr>loading_image_data_ids := (loading_image_data_ids s1)(k \<mapsto> True),
                     requests :=
                       requests s1 @
                       [Get_request (''/ajax/illust/'' @ Rep_ident k) Loaded_image_info]\<rparr>))"
    unfolding load_image_info_def Let_def s1_def ..
  moreover have "dedup_inv (s1\<lparr>loading_image_data_ids := (loading_image_data_ids s1)(k \<mapsto> True),
                     requests :=
                       requests s1 @
                       [Get_request (''/ajax/illust/'' @ Rep_ident k) Loaded_image_info]\<rparr>)"
    if "loading_image_data_ids s1 k \<noteq> Some True" "image_data s1 k = None"
    using i1 that unfolding dedup_inv_def illust_fetches_def user_fetches_def
    by (auto simp: le_Suc_eq Rep_ident_inject)
  ultimately show ?thesis using i1 by (auto simp: dedup_inv_load_user_info split: option.splits)
qed

lemma dedup_inv_get_image_info: "dedup_inv s \<Longrightarrow> dedup_inv (get_image_info s k cb)"
  unfolding get_image_info_def
  by (cases cb) (simp_all add: dedup_inv_load_image_info dedup_inv_queue)

lemma dedup_inv_get_user_info: "dedup_inv s \<Longrightarrow> dedup_inv (get_user_info s k cb)"
  unfolding get_user_info_def
  by (cases cb) (simp_all add: dedup_inv_load_user_info dedup_inv_queue)

text \<open>The requests that a callback makes go through the same ledger.\<close>

lemma dedup_inv_perform_calls: "dedup_inv s \<Longrightarrow> dedup_inv (perform_calls s calls)"
proof (induction calls arbitrary: s)
  case Nil
  then show ?case by simp
next
  case (Cons c calls)
  have "dedup_inv (perform_call s c)"
    using Cons.prems by (cases c) (simp_all add: dedup_inv_get_image_info dedup_inv_get_user_info)
  then show ?case by (simp add: Cons.IH)
qed

lemma dedup_inv_attach:
  "dedup_inv s \<Longrightarrow> image_data s k = Some d \<Longrightarrow>
   dedup_inv (s\<lparr>image_data := (image_data s)(k \<mapsto> d'), pending_image_info_calls := p, invoked := v\<rparr>)"
  unfolding dedup_inv_def illust_fetches_def user_fetches_def by auto

lemma dedup_inv_image_loop: "dedup_inv s \<Longrightarrow> dedup_inv (image_info_calls_loop i s)"
proof (induction i s rule: image_info_calls_loop.induct)
  case (1 i s)
  show ?case
  proof (cases "i < length (pending_image_info_calls s)")
    case False
    then show ?thesis using "1.prems" by (subst image_info_calls_loop.simps) simp
  next
    case True
    obtain illust_id callback where p: "pending_image_info_calls s ! i = (illust_id, callback)"
      by (cases "pending_image_info_calls s ! i")
    show ?thesis
    proof (cases "image_data s illust_id")
      case None
      have "dedup_inv (image_info_calls_loop (Suc i) s)"
        using "1.IH"(1)[OF True p[symmetric] None "1.prems"] .
      then show ?thesis by (subst image_info_calls_loop.simps) (simp add: True p None)
    next
      case (Some illust_data)
      show ?thesis
      proof (cases "user_data s (illust_info.userId illust_data)")
        case None
        have "dedup_inv (image_info_calls_loop (Suc i) s)"
          using "1.IH"(2)[OF True p[symmetric] Some None "1.prems"] .
        then show ?thesis by (subst image_info_calls_loop.simps) (simp add: True p Some None)
      next
        case ud: (Some ud)
        let ?s' = "perform_calls
            (s\<lparr>image_data := (image_data s)(illust_id \<mapsto> illust_data\<lparr>userInfo := Some ud\<rparr>),
               pending_image_info_calls :=
                 take i (pending_image_info_calls s) @ drop (Suc i) (pending_image_info_calls s),
               invoked :=
                 invoked s @
                 [Image_callback (name_of callback) (illust_data\<lparr>userInfo := Some ud\<rparr>)]\<rparr>)
            (calls_of callback)"
        have "dedup_inv ?s'"
          by (rule dedup_inv_perform_calls) (rule dedup_inv_attach[OF "1.prems" Some])
        then have "dedup_inv (image_info_calls_loop i ?s')"
          by (rule "1.IH"(3)[OF True p[symmetric] Some ud])
        then show ?thesis by (subst image_info_calls_loop.simps) (simp add: True p Some ud)
      qed
    qed
  qed
qed

lemma dedup_inv_user_loop: "dedup_inv s \<Longrightarrow> dedup_inv (user_info_calls_loop i s)"
proof (induction i s rule: user_info_calls_loop.induct)
  case (1 i s)
  show ?case
  proof (cases "i < length (pending_user_info_calls s)")
    case False
    then show ?thesis using "1.prems" by (subst user_info_calls_loop.simps) simp
  next
    case True
    obtain user_id callback where p: "pending_user_info_calls s ! i = (user_id, callback)"
      by (cases "pending_user_info_calls s ! i")
    show ?thesis
    proof (cases "user_data s user_id")
      case None
      have "dedup_inv (user_info_calls_loop (Suc i) s)"
        using "1.IH"(1)[OF True p[symmetric] None "1.prems"] .
      then show ?thesis by (subst user_info_calls_loop.simps) (simp add: True p None)
    next
      case (Some ud)
      let ?s' = "perform_calls
          (s\<lparr>pending_user_info_calls :=
               take i (pending_user_info_calls s) @ drop (Suc i) (pending_user_info_calls s),
             invoked := invoked s @ [User_callback (name_of callback) ud]\<rparr>)
          (calls_of callback)"
      have "dedup_inv ?s'"
        by (rule dedup_inv_perform_calls) (simp add: dedup_inv_queue "1.prems")
      then have "dedup_inv (user_info_calls_loop i ?s')"
        by (rule "1.IH"(2)[OF True p[symmetric] Some])
      then show ?thesis by (subst user_info_calls_loop.simps) (simp add: True p Some)
    qed
  qed
qed

lemma dedup_inv_call_pending_callbacks:
  "dedup_inv s \<Longrightarrow> dedup_inv (call_pending_callbacks s)"
  by (simp add: call_pending_callbacks_def dedup_inv_user_loop dedup_inv_image_loop)

lemma dedup_inv_finished:
  "dedup_inv s \<Longrightarrow> dedup_inv (finished_loading_image_data s d)"
  unfolding dedup_inv_def finished_loading_image_data_def illust_fetches_def user_fetches_def
  by auto

lemma dedup_inv_mark:
  "dedup_inv s \<Longrightarrow> dedup_inv (s\<lparr>loading_image_data_ids := (loading_image_data_ids s)(k \<mapsto> True)\<rparr>)"
  unfolding dedup_inv_def illust_fetches_def user_fetches_def by auto

lemma dedup_inv_ugoira_request:
  "dedup_inv s \<Longrightarrow> dedup_inv (s\<lparr>requests := requests s @ [Fetch_ugoira_metadata k d]\<rparr>)"
  unfolding dedup_inv_def illust_fetches_def user_fetches_def by auto

lemma dedup_inv_loaded_image_info: "dedup_inv s \<Longrightarrow> dedup_inv (loaded_image_info s r)"
  using dedup_inv_finished[OF dedup_inv_mark, of s "illustId (body r)" "body r"]
        dedup_inv_ugoira_request[OF dedup_inv_mark, of s "illustId (body r)" "illustId (body r)" "body r"]
  unfolding loaded_image_info_def Let_def
  by simp

lemma dedup_inv_store_user:
  "dedup_inv s \<Longrightarrow>
   dedup_inv (s\<lparr>loading_user_data_ids := (loading_user_data_ids s)(k := None),
                user_data := (user_data s)(k \<mapsto> u)\<rparr>)"
  unfolding dedup_inv_def illust_fetches_def user_fetches_def by auto

lemma dedup_inv_loaded_user_info: "dedup_inv s \<Longrightarrow> dedup_inv (loaded_user_info s r)"
  unfolding loaded_user_info_def Let_def
  by (simp add: dedup_inv_call_pending_callbacks dedup_inv_store_user)

lemma dedup_inv_step: "dedup_inv s \<Longrightarrow> dedup_inv (step s e)"
proof (cases e)
  case (Ugoira_response i r)
  assume "dedup_inv s"
  then show ?thesis
    by (simp add: Ugoira_response ugoira_response_def fetch_ugoira_metadata_callback_def
        dedup_inv_finished split: request.splits)
next
  case Timeout_fires
  assume "dedup_inv s"
  then show ?thesis
    by (simp add: Timeout_fires run_timeout_def dedup_inv_queue dedup_inv_load_user_info
        dedup_inv_call_pending_callbacks split: list.splits timeout.splits)
qed (auto simp: get_image_info_def get_user_info_def add_illust_data_def add_user_data_def
      set_user_id_for_illust_id_def dedup_inv_queue dedup_inv_load_image_info
      dedup_inv_load_user_info dedup_inv_loaded_image_info dedup_inv_loaded_user_info
      split: option.splits)

lemma dedup_inv_foldl: "dedup_inv s \<Longrightarrow> dedup_inv (foldl step s evs)"
  by (induction evs arbitrary: s) (simp_all add: dedup_inv_step)

lemma dedup_inv_run: "dedup_inv (run evs)"
  unfolding run_def
  by (rule dedup_inv_foldl) (simp add: dedup_inv_def constructor_def illust_fetches_def user_fetches_def)

text \<open>The first of a series of requests for one identifier sends the fetch; the others find the marker.\<close>

lemma load_user_info_image_side:
  "loading_image_data_ids (load_user_info s u) = loading_image_data_ids s"
  "image_data (load_user_info s u) = image_data s"
  "illust_fetches (load_user_info s u) k = illust_fetches s k"
  "invoked (load_user_info s u) = invoked s"
  "pending_image_info_calls (load_user_info s u) = pending_image_info_calls s"
  "pending_user_info_calls (load_user_info s u) = pending_user_info_calls s"
  "user_data (load_user_info s u) = user_data s"
  by (simp_all add: load_user_info_def illust_fetches_def)

lemma get_image_info_first:
  assumes "image_data s k = None" "loading_image_data_ids s k \<noteq> Some True"
  shows "illust_fetches (get_image_info s k cb) k = illust_fetches s k + 1"
    and "loading_image_data_ids (get_image_info s k cb) k = Some True"
  using assms
  by (auto simp: get_image_info_def load_image_info_def Let_def load_user_info_def
      illust_fetches_def split: option.splits)

lemma get_image_info_coalesced:
  assumes "loading_image_data_ids s k = Some True"
  shows "illust_fetches (get_image_info s k cb) j = illust_fetches s j"
    and "loading_image_data_ids (get_image_info s k cb) k = Some True"
  using assms
  by (auto simp: get_image_info_def load_image_info_def Let_def load_user_info_def
      illust_fetches_def split: option.splits)

lemma get_image_info_repeat_coalesced:
  "loading_image_data_ids s k = Some True \<Longrightarrow>
   illust_fetches (foldl (\<lambda>s cb. get_image_info s k cb) s cbs) k = illust_fetches s k"
  by (induction cbs arbitrary: s) (simp_all add: get_image_info_coalesced)

lemma get_image_info_repeat:
  assumes "image_data s k = None" "loading_image_data_ids s k \<noteq> Some True" "cbs \<noteq> []"
  shows "illust_fetches (foldl (\<lambda>s cb. get_image_info s k cb) s cbs) k = illust_fetches s k + 1"
proof -
  obtain cb rest where c: "cbs = cb # rest" using assms(3) by (cases cbs) auto
  show ?thesis
    using get_image_info_first[OF assms(1,2), of cb]
    by (simp add: c get_image_info_repeat_coalesced)
qed

lemma get_user_info_first:
  assumes "user_data s k = None" "loading_user_data_ids s k \<noteq> Some True"
  shows "user_fetches (get_user_info s k cb) k = user_fetches s k + 1"
    and "loading_user_data_ids (get_user_info s k cb) k = Some True"
  using assms
  by (auto simp: get_user_info_def load_user_info_def user_fetches_def split: option.splits)

lemma get_user_info_coalesced:
  assumes "loading_user_data_ids s k = Some True"
  shows "user_fetches (get_user_info s k cb) j = user_fetches s j"
    and "loading_user_data_ids (get_user_info s k cb) k = Some True"
  using assms
  by (auto simp: get_user_info_def load_user_info_def user_fetches_def split: option.splits)

lemma get_user_info_repeat_coalesced:
  "loading_user_data_ids s k = Some True \<Longrightarrow>
   user_fetches (foldl (\<lambda>s cb. get_user_info s k cb) s cbs) k = user_fetches s k"
  by (induction cbs arbitrary: s) (simp_all add: get_user_info_coalesced)

lemma get_user_info_repeat:
  assumes "user_data s k = None" "loading_user_data_ids s k \<noteq> Some True" "cbs \<noteq> []"
  shows "user_fetches (foldl (\<lambda>s cb. get_user_info s k cb) s cbs) k = user_fetches s k + 1"
proof -
  obtain cb rest where c: "cbs = cb # rest" using assms(3) by (cases cbs) auto
  show ?thesis
    using get_user_info_first[OF assms(1,2), of cb]
    by (simp add: c get_user_info_repeat_coalesced)
qed

subsection \<open>Requests for an identifier that is marked or cached\<close>

lemma image_loop_nil [simp]: "pending_image_info_calls s = [] \<Longrightarrow> image_info_calls_loop i s = s"
  by (subst image_info_calls_loop.simps) simp

lemma user_loop_nil [simp]: "pending_user_info_calls s = [] \<Longrightarrow> user_info_calls_loop i s = s"
  by (subst user_info_calls_loop.simps) simp

lemma illust_fetches_queue [simp]:
  "illust_fetches (s\<lparr>pending_image_info_calls := p\<rparr>) j = illust_fetches s j"
  by (simp add: illust_fetches_def)

lemma load_image_info_known:
  "loading_image_data_ids s k = Some True \<or> image_data s k \<noteq> None \<Longrightarrow>
   illust_fetches (load_image_info s k) j = illust_fetches s j"
  unfolding load_image_info_def Let_def
  by (auto simp: load_user_info_image_side split: option.splits)

lemma get_image_info_known:
  "loading_image_data_ids s k = Some True \<or> image_data s k \<noteq> None \<Longrightarrow>
   illust_fetches (get_image_info s k cb) j = illust_fetches s j"
  unfolding get_image_info_def
  by (cases cb) (simp_all add: load_image_info_known)

lemma add_illust_data_effect:
  "illust_fetches (add_illust_data s d) j = illust_fetches s j"
  "illustType d = 2 \<Longrightarrow> loading_image_data_ids (add_illust_data s d) (illustId d) = Some True"
  "illustType d \<noteq> 2 \<Longrightarrow> loading_image_data_ids (add_illust_data s d) (illustId d) = None"
  "illustType d \<noteq> 2 \<Longrightarrow> image_data (add_illust_data s d) (illustId d) = Some d"
  by (simp_all add: add_illust_data_def loaded_image_info_def finished_loading_image_data_def
      illust_fetches_def Let_def)

text \<open>
  Claim C1. In every execution of the cache, started from the constructor, at most one fetch
  of an illustration \<open>k\<close> and at most one fetch of a user \<open>u\<close> is ever sent, so at most
  one is in flight at any time; the requests that callbacks make while they run are
  counted. The identifiers \<open>k\<close> and \<open>u\<close> range over the type \<open>ident\<close>: the strings that
  name no member of \<open>Object.prototype\<close>. When \<open>k\<close> is neither cached nor marked as loading, any
  non-empty series of \<open>get_image_info\<close> calls for \<open>k\<close> made before a completion sends
  exactly one fetch of \<open>k\<close>: the later calls find the marker in
  \<open>loading_image_data_ids\<close>. The same holds for \<open>get_user_info\<close> and
  \<open>loading_user_data_ids\<close>.
\<close>

theorem single_fetch_per_identifier:
  "illust_fetches (run evs) k \<le> 1 \<and> user_fetches (run evs) u \<le> 1 \<and>
   (image_data s k = None \<and> loading_image_data_ids s k \<noteq> Some True \<and> cbs \<noteq> [] \<longrightarrow>
      illust_fetches (foldl (\<lambda>s cb. get_image_info s k cb) s cbs) k = illust_fetches s k + 1) \<and>
   (user_data s u = None \<and> loading_user_data_ids s u \<noteq> Some True \<and> cbs \<noteq> [] \<longrightarrow>
      user_fetches (foldl (\<lambda>s cb. get_user_info s u cb) s cbs) u = user_fetches s u + 1)"
  using dedup_inv_run[of evs] get_image_info_repeat[of s k cbs] get_user_info_repeat[of s u cbs]
  by (simp add: dedup_inv_def)

theorem single_fetch_per_identifier_witness:
  "image_data constructor id_1 = None \<and> loading_image_data_ids constructor id_1 \<noteq> Some True \<and>
   [Some (Callback 7 []), None, Some (Callback 8 [])] \<noteq> [] \<and>
   user_data constructor id_5 = None \<and> loading_user_data_ids constructor id_5 \<noteq> Some True \<and>
   illust_fetches (foldl (\<lambda>s cb. get_image_info s id_1 cb) constructor [Some (Callback 7 []), None, Some (Callback 8 [])]) id_1 = 1 \<and>
   user_fetches (foldl (\<lambda>s cb. get_user_info s id_5 cb) constructor [Some (Callback 7 []), None, Some (Callback 8 [])]) id_5 = 1"
  using single_fetch_per_identifier[of "[]" id_1 id_5 constructor "[Some (Callback 7 []), None, Some (Callback 8 [])]"]
  by (simp add: constructor_def illust_fetches_def user_fetches_def)

subsection \<open>A failed fetch\<close>

text \<open>
  Claim C3, as stated, at a concrete input: illustration 1 is requested and its fetch fails.
  The marker of 1 is still set afterwards, and a further request for 1 is coalesced into
  the fetch that has failed: one fetch has been sent, no second one follows.
\<close>

theorem failed_fetch_keeps_marker_counterexample:
  "loading_image_data_ids
     (run [Get_image_info id_1 None, Image_response \<lparr>error = True, body = illust_1\<rparr>]) id_1 = Some True \<and>
   illust_fetches
     (run [Get_image_info id_1 None, Image_response \<lparr>error = True, body = illust_1\<rparr>,
           Get_image_info id_1 (Some (Callback 0 []))]) id_1 = 1"
  by (simp add: Let_def run_def constructor_def get_image_info_def load_image_info_def loaded_image_info_def
      illust_fetches_def)

text \<open>
  Claim C3, amended. A failed fetch of an illustration or of a user leaves the whole state
  of the cache as it was: the marker of the key stays set, no callback is queued or invoked,
  and nothing is stored in the cache. A request for a key whose marker is set sends no fetch
  of that key, so a failed fetch is not tried again.
\<close>

theorem failed_fetch_changes_nothing:
  "(error ir \<longrightarrow> loaded_image_info s ir = s) \<and>
   (error ur \<longrightarrow> loaded_user_info s ur = s) \<and>
   (loading_image_data_ids s k = Some True \<longrightarrow>
      illust_fetches (get_image_info s k cb) k = illust_fetches s k) \<and>
   (loading_user_data_ids s u = Some True \<longrightarrow>
      user_fetches (get_user_info s u cb) u = user_fetches s u)"
  by (simp add: Let_def loaded_image_info_def loaded_user_info_def get_image_info_coalesced
      get_user_info_coalesced)

theorem failed_fetch_changes_nothing_witness:
  "error \<lparr>error = True, body = illust_1\<rparr> \<and> error \<lparr>error = True, body = user_5\<rparr> \<and>
   loading_image_data_ids (get_image_info constructor id_1 None) id_1 = Some True \<and>
   loading_user_data_ids (get_user_info constructor id_5 None) id_5 = Some True \<and>
   loaded_image_info (get_image_info constructor id_1 None) \<lparr>error = True, body = illust_1\<rparr>
     = get_image_info constructor id_1 None \<and>
   loaded_user_info (get_user_info constructor id_5 None) \<lparr>error = True, body = user_5\<rparr>
     = get_user_info constructor id_5 None \<and>
   illust_fetches (get_image_info (get_image_info constructor id_1 None) id_1 (Some (Callback 0 []))) id_1
     = illust_fetches (get_image_info constructor id_1 None) id_1 \<and>
   user_fetches (get_user_info (get_user_info constructor id_5 None) id_5 (Some (Callback 0 []))) id_5
     = user_fetches (get_user_info constructor id_5 None) id_5"
  using failed_fetch_changes_nothing[of "\<lparr>error = True, body = illust_1\<rparr>"
      "get_image_info constructor id_1 None" "\<lparr>error = True, body = user_5\<rparr>" id_1 "Some (Callback 0 [])" id_5]
    failed_fetch_changes_nothing[of "\<lparr>error = True, body = illust_1\<rparr>"
      "get_user_info constructor id_5 None" "\<lparr>error = True, body = user_5\<rparr>" id_1 "Some (Callback 0 [])" id_5]
  by (simp add: Let_def constructor_def get_image_info_def load_image_info_def get_user_info_def load_user_info_def)

subsection \<open>A failed fetch of the animation metadata\<close>

text \<open>
  Claim C4 at a concrete input. The animation 2 is requested and its record arrives; the
  fetch of its animation metadata (entry 1 of the request log) then completes with
  \<open>error\<close> set and no body. The handler stores the record in the cache all the same, with
  the body of the failed result as its \<open>ugoiraMetadata\<close>, and clears the marker.
\<close>

theorem failed_ugoira_fetch_is_cached:
  "image_data
     (run [Get_image_info id_2 None, Image_response \<lparr>error = False, body = ugoira_2\<rparr>,
           Ugoira_response 1 \<lparr>error = True, body = None\<rparr>]) id_2
     = Some (ugoira_2\<lparr>ugoiraMetadata := None\<rparr>) \<and>
   loading_image_data_ids
     (run [Get_image_info id_2 None, Image_response \<lparr>error = False, body = ugoira_2\<rparr>,
           Ugoira_response 1 \<lparr>error = True, body = None\<rparr>]) id_2 = None"
  by (simp add: Let_def run_def constructor_def get_image_info_def load_image_info_def loaded_image_info_def
      ugoira_response_def fetch_ugoira_metadata_callback_def finished_loading_image_data_def
      ugoira_2_def)

subsection \<open>An injected record while its fetch is in flight\<close>

text \<open>
  Claim C10, as stated, at a concrete input: illustration 1 is requested, its record is
  injected before the fetch returns, and 1 is requested again. One fetch of 1 has been
  sent, not two.
\<close>

theorem inject_then_request_counterexample:
  "illust_fetches
     (run [Get_image_info id_1 None, Add_illust_data illust_1, Get_image_info id_1 None]) id_1 = 1"
  by (simp add: Let_def run_def constructor_def get_image_info_def load_image_info_def loaded_image_info_def
      add_illust_data_def finished_loading_image_data_def load_user_info_def
      illust_fetches_def illust_1_def)

text \<open>
  Claim C10, amended. \<open>add_illust_data\<close> for a record that is not an animation clears the
  marker of its identifier and stores the record in the cache. A request for that
  identifier that follows sends no fetch of any illustration: it finds the record cached
  (or, for an animation whose metadata is still being fetched, the marker set). In every
  execution in which a record is injected, at most one fetch of its identifier is ever sent.
\<close>

theorem inject_clears_marker_and_caches:
  "(illustType d \<noteq> 2 \<longrightarrow>
      loading_image_data_ids (add_illust_data s d) (illustId d) = None \<and>
      image_data (add_illust_data s d) (illustId d) = Some d) \<and>
   illust_fetches (get_image_info (add_illust_data s d) (illustId d) cb) j = illust_fetches s j \<and>
   illust_fetches (run (evs @ Add_illust_data d # evs')) (illustId d) \<le> 1"
proof -
  have "loading_image_data_ids (add_illust_data s d) (illustId d) = Some True \<or>
        image_data (add_illust_data s d) (illustId d) \<noteq> None"
    using add_illust_data_effect(2,4)[of d s] by (cases "illustType d = 2") simp_all
  then have "illust_fetches (get_image_info (add_illust_data s d) (illustId d) cb) j = illust_fetches s j"
    by (simp add: get_image_info_known add_illust_data_effect(1))
  moreover have "illust_fetches (run (evs @ Add_illust_data d # evs')) (illustId d) \<le> 1"
    using dedup_inv_run[of "evs @ Add_illust_data d # evs'"] by (simp add: dedup_inv_def)
  ultimately show ?thesis by (simp add: add_illust_data_effect)
qed

theorem inject_clears_marker_and_caches_witness:
  "illustType illust_1 \<noteq> 2 \<and>
   loading_image_data_ids (add_illust_data (get_image_info constructor id_1 None) illust_1) id_1 = None \<and>
   image_data (add_illust_data (get_image_info constructor id_1 None) illust_1) id_1 = Some illust_1 \<and>
   illust_fetches (get_image_info (add_illust_data (get_image_info constructor id_1 None) illust_1) id_1 None) id_1
     = illust_fetches (get_image_info constructor id_1 None) id_1 \<and>
   illust_fetches (run ([Get_image_info id_1 None] @ Add_illust_data illust_1 # [Get_image_info id_1 None])) id_1 \<le> 1"
  using inject_clears_marker_and_caches[where d = illust_1 and s = "get_image_info constructor id_1 None"
      and cb = None and j = id_1 and evs = "[Get_image_info id_1 None]"
      and evs' = "[Get_image_info id_1 None]"]
  by (simp add: illust_1_def)

subsection \<open>A request made inside a callback\<close>


section \<open>Properties of the preloader\<close>

subsection \<open>The preloads of one illustration\<close>

lemma push_small_pages_map:
  "push_small_pages pages results =
   results @ map (\<lambda>page. img_preloader (small (manga_page.urls page))) pages"
  by (induction pages arbitrary: results) simp_all

text \<open>
  Claim C7. \<open>create_preloaders_for_illust\<close> returns no preloader when a tag or the owner of
  the illustration is muted. For an animation whose metadata is loaded it returns exactly two:
  an \<open>_xhr_preloader\<close> for the archive \<open>ugoiraMetadata.originalSrc\<close>, then an
  \<open>_img_preloader\<close> for \<open>urls.original\<close>. For any other illustration it returns one
  \<open>_img_preloader\<close> per page for the page's \<open>urls.small\<close>, in page order, followed by one
  \<open>_img_preloader\<close> for the \<open>urls.original\<close> of the first page, and nothing for the
  \<open>urls.original\<close> of a later page; with no page at all it returns nothing.
\<close>

theorem create_preloaders_for_illust_cases:
  "(any_tag_muted m (tags d) \<or> is_muted_user_id m (illust_info.userId d) \<longrightarrow>
      create_preloaders_for_illust m d = Inr []) \<and>
   (\<not> any_tag_muted m (tags d) \<and> \<not> is_muted_user_id m (illust_info.userId d) \<and>
    illustType d = 2 \<and> ugoiraMetadata d = Some um \<longrightarrow>
      create_preloaders_for_illust m d =
        Inr [\<lparr>url = originalSrc um, strategy = Xhr_preloader, abort_controller = False\<rparr>,
             \<lparr>url = original (illust_info.urls d), strategy = Img_preloader, abort_controller = False\<rparr>]) \<and>
   (\<not> any_tag_muted m (tags d) \<and> \<not> is_muted_user_id m (illust_info.userId d) \<and>
    illustType d \<noteq> 2 \<and> mangaPages d = page # pages \<longrightarrow>
      create_preloaders_for_illust m d =
        Inr (map (\<lambda>page. \<lparr>url = small (manga_page.urls page), strategy = Img_preloader,
                           abort_controller = False\<rparr>) (page # pages)
             @ [\<lparr>url = original (manga_page.urls page), strategy = Img_preloader,
                 abort_controller = False\<rparr>])) \<and>
   (\<not> any_tag_muted m (tags d) \<and> \<not> is_muted_user_id m (illust_info.userId d) \<and>
    illustType d \<noteq> 2 \<and> mangaPages d = [] \<longrightarrow>
      create_preloaders_for_illust m d = Inr [])"
  by (simp add: create_preloaders_for_illust_def push_small_pages_map img_preloader_def
      xhr_preloader_def)

theorem create_preloaders_for_illust_cases_witness:
  "any_tag_muted mute_landscape (tags illust_1) \<and>
   create_preloaders_for_illust mute_landscape illust_1 = Inr [] \<and>
   \<not> any_tag_muted no_muting (tags ugoira_2_loaded) \<and>
   \<not> is_muted_user_id no_muting (illust_info.userId ugoira_2_loaded) \<and>
   illustType ugoira_2_loaded = 2 \<and> ugoiraMetadata ugoira_2_loaded = Some \<lparr>originalSrc = ''z2''\<rparr> \<and>
   create_preloaders_for_illust no_muting ugoira_2_loaded =
     Inr [\<lparr>url = ''z2'', strategy = Xhr_preloader, abort_controller = False\<rparr>,
          \<lparr>url = ''o2'', strategy = Img_preloader, abort_controller = False\<rparr>] \<and>
   illustType manga_3 \<noteq> 2 \<and>
   create_preloaders_for_illust no_muting manga_3 =
     Inr [\<lparr>url = ''s3a'', strategy = Img_preloader, abort_controller = False\<rparr>,
          \<lparr>url = ''s3b'', strategy = Img_preloader, abort_controller = False\<rparr>,
          \<lparr>url = ''s3c'', strategy = Img_preloader, abort_controller = False\<rparr>,
          \<lparr>url = ''o3a'', strategy = Img_preloader, abort_controller = False\<rparr>] \<and>
   create_preloaders_for_illust no_muting (manga_3\<lparr>mangaPages := []\<rparr>) = Inr []"
  using create_preloaders_for_illust_cases[of mute_landscape illust_1]
    create_preloaders_for_illust_cases[of no_muting ugoira_2_loaded "\<lparr>originalSrc = ''z2''\<rparr>"]
    create_preloaders_for_illust_cases[of no_muting manga_3 _
       "\<lparr>manga_page.urls = \<lparr>small = ''s3a'', original = ''o3a''\<rparr>\<rparr>"
       "[\<lparr>manga_page.urls = \<lparr>small = ''s3b'', original = ''o3b''\<rparr>\<rparr>,
         \<lparr>manga_page.urls = \<lparr>small = ''s3c'', original = ''o3c''\<rparr>\<rparr>]"]
    create_preloaders_for_illust_cases[of no_muting "manga_3\<lparr>mangaPages := []\<rparr>"]
  by (simp add: mute_landscape_def no_muting_def illust_1_def ugoira_2_loaded_def ugoira_2_def
      manga_3_def)

subsection \<open>The list of wanted preloads\<close>

lemma push_not_recent_filter:
  "push_not_recent recent wanted filtered =
   filtered @ filter (\<lambda>preload. url preload \<notin> set recent) wanted"
  by (induction wanted arbitrary: filtered) simp_all

text \<open>
  Claim C5. In \<open>check_fetch_queue\<close> the list \<open>filtered_preloads\<close> is made of the preloads of
  the current illustration followed by those of the speculative one, without those whose
  URL is in \<open>recently_preloaded_urls\<close>, cut to its first five entries. With two preloads
  for the current illustration, two for the speculative one and nothing preloaded recently,
  it is the four of them in that order.
\<close>

theorem wanted_order_and_truncation:
  "((case current_illust_info s of None \<Rightarrow> Inr [] | Some info \<Rightarrow> create_preloaders_for_illust m info)
      = Inr current_preloads \<and>
    (case speculative_illust_info s of None \<Rightarrow> Inr [] | Some info \<Rightarrow> create_preloaders_for_illust m info)
      = Inr speculative_preloads \<longrightarrow>
      filtered_preloads m s =
        Inr (take 5 (filter (\<lambda>preload. url preload \<notin> set (recently_preloaded_urls s))
                       (current_preloads @ speculative_preloads)))) \<and>
   (current_illust_info s = Some a \<and> speculative_illust_info s = Some b \<and>
    create_preloaders_for_illust m a = Inr [a1, a2] \<and>
    create_preloaders_for_illust m b = Inr [b1, b2] \<and>
    recently_preloaded_urls s = [] \<longrightarrow>
      filtered_preloads m s = Inr [a1, a2, b1, b2])"
  by (auto simp: filtered_preloads_def wanted_preloads_def push_not_recent_filter
      concurrent_preloads_def split: option.splits sum.splits)

theorem wanted_order_and_truncation_witness:
  "current_illust_info viewing_1_then_2 = Some illust_1 \<and>
   speculative_illust_info viewing_1_then_2 = Some ugoira_2_loaded \<and>
   create_preloaders_for_illust no_muting illust_1 = Inr [img_preloader ''s1'', img_preloader ''o1''] \<and>
   create_preloaders_for_illust no_muting ugoira_2_loaded = Inr [xhr_preloader ''z2'', img_preloader ''o2''] \<and>
   recently_preloaded_urls viewing_1_then_2 = [] \<and>
   filtered_preloads no_muting viewing_1_then_2 =
     Inr [img_preloader ''s1'', img_preloader ''o1'', xhr_preloader ''z2'', img_preloader ''o2''] \<and>
   filtered_preloads no_muting (viewing_1_then_2\<lparr>recently_preloaded_urls := [''s1'']\<rparr>) =
     Inr [img_preloader ''o1'', xhr_preloader ''z2'', img_preloader ''o2'']"
proof -
  have c: "create_preloaders_for_illust no_muting illust_1 = Inr [img_preloader ''s1'', img_preloader ''o1'']"
    "create_preloaders_for_illust no_muting ugoira_2_loaded = Inr [xhr_preloader ''z2'', img_preloader ''o2'']"
    by (simp_all add: create_preloaders_for_illust_def no_muting_def illust_1_def
        ugoira_2_loaded_def ugoira_2_def)
  have v: "current_illust_info viewing_1_then_2 = Some illust_1"
    "speculative_illust_info viewing_1_then_2 = Some ugoira_2_loaded"
    "recently_preloaded_urls viewing_1_then_2 = []"
    by (simp_all add: viewing_1_then_2_def preloader_constructor_def)
  show ?thesis
    using wanted_order_and_truncation[where s = viewing_1_then_2 and m = no_muting
        and current_preloads = "[img_preloader ''s1'', img_preloader ''o1'']"
        and speculative_preloads = "[xhr_preloader ''z2'', img_preloader ''o2'']"
        and a = illust_1 and b = ugoira_2_loaded
        and ?a1.0 = "img_preloader ''s1''" and ?a2.0 = "img_preloader ''o1''"
        and ?b1.0 = "xhr_preloader ''z2''" and ?b2.0 = "img_preloader ''o2''"]
      wanted_order_and_truncation[where s = "viewing_1_then_2\<lparr>recently_preloaded_urls := [''s1'']\<rparr>"
        and m = no_muting
        and current_preloads = "[img_preloader ''s1'', img_preloader ''o1'']"
        and speculative_preloads = "[xhr_preloader ''z2'', img_preloader ''o2'']"]
    by (simp add: c v img_preloader_def xhr_preloader_def)
qed

subsection \<open>One reconciliation\<close>

lemma find_active_preload_by_url_None:
  "(find_active_preload_by_url active u = None) = (u \<notin> (\<lambda>preload. url (snd preload)) ` set active)"
  by (induction active) auto

lemma any_preload_active_iff:
  "any_preload_active active wanted =
   (\<exists>preload \<in> set wanted. url preload \<in> (\<lambda>listed. url (snd listed)) ` set active)"
  by (induction wanted) (auto simp: find_active_preload_by_url_None)

lemma cancel_unwanted_fresh:
  "distinct (map fst active) \<Longrightarrow> fst ` set active \<inter> fst ` set updated = {} \<Longrightarrow>
   cancel_unwanted active updated = updated @ map cancelled active"
proof (induction active arbitrary: updated)
  case Nil
  then show ?case by simp
next
  case (Cons preload rest)
  have a: "fst preload \<notin> fst ` set updated" using Cons.prems(2) by auto
  have b: "fst ` set rest \<inter> fst ` set (updated @ [(fst preload, cancel (snd preload))]) = {}"
    using Cons.prems by auto
  have c: "distinct (map fst rest)" using Cons.prems(1) by simp
  show ?case using a Cons.IH[OF c b] by (simp add: cancelled_def)
qed

lemma cancelled_simps [simp]:
  "fst (cancelled preload) = fst preload"
  "url (snd (cancelled preload)) = url (snd preload)"
  "strategy (snd (cancelled preload)) = strategy (snd preload)"
  "abort_controller (snd (cancelled preload)) = False"
  by (simp_all add: cancelled_def cancel_def)

lemma check_fetch_queue_cases:
  assumes "preloads_wf s"
  shows "check_fetch_queue m s =
     (case filtered_preloads m s of
        Inl e \<Rightarrow> Inl e
      | Inr [] \<Rightarrow> Inr s
      | Inr (preload # rest) \<Rightarrow>
          if \<exists>wanted \<in> set (preload # rest). url wanted \<in> (\<lambda>listed. url (snd listed)) ` set (preloads s)
          then Inr s
          else Inr (s\<lparr>preloads := (next_preloader s, start preload) # map cancelled (preloads s),
                      next_preloader := Suc (next_preloader s)\<rparr>))"
proof -
  have d: "distinct (map fst (preloads s))" using assms by (simp add: preloads_wf_def)
  have f: "fst ` set (preloads s) \<inter> fst ` set [(next_preloader s, p)] = {}" for p
    using assms by (auto simp: preloads_wf_def list_all_iff)
  have "cancel_unwanted (preloads s) [(next_preloader s, p)] =
        (next_preloader s, p) # map cancelled (preloads s)" for p
    using cancel_unwanted_fresh[OF d f, of p] by simp
  then show ?thesis
    by (simp add: check_fetch_queue_def any_preload_active_iff split: sum.splits list.splits)
qed

lemma check_fetch_queue_frame:
  assumes "check_fetch_queue m s = Inr s'"
  shows "recently_preloaded_urls s' = recently_preloaded_urls s"
    "current_illust_id s' = current_illust_id s" "current_illust_info s' = current_illust_info s"
    "speculative_illust_id s' = speculative_illust_id s"
    "speculative_illust_info s' = speculative_illust_info s"
  using assms
  by (auto simp: check_fetch_queue_def split: sum.splits list.splits if_splits)

lemma filter_map_cancelled:
  "filter (\<lambda>preload. abort_controller (snd preload)) (map cancelled active) = []"
  by (induction active) simp_all

lemma serial_inv_check_fetch_queue:
  assumes "serial_inv s" "check_fetch_queue m s = Inr s'"
  shows "serial_inv s'"
proof -
  have wf: "preloads_wf s" using assms(1) by (simp add: serial_inv_def)
  have "serial_inv (s\<lparr>preloads := (next_preloader s, start p) # map cancelled (preloads s),
                      next_preloader := Suc (next_preloader s)\<rparr>)" for p
    using wf
    by (auto simp: serial_inv_def preloads_wf_def running_def filter_map_cancelled list_all_iff
        o_def image_iff)
  then show ?thesis
    using assms
    by (auto simp: check_fetch_queue_cases[OF wf] split: sum.splits list.splits if_splits)
qed

lemma still_listed_check_fetch_queue:
  assumes "preloads_wf s" "check_fetch_queue m s = Inr s'" "preload \<in> set (preloads s)"
  shows "still_listed (preloads s') preload"
proof -
  have a: "still_listed (preloads s) preload"
    using assms(3) by (auto simp: still_listed_def list_ex_iff)
  have b: "still_listed (x # map cancelled (preloads s)) preload" for x
  proof -
    have "cancelled preload \<in> set (x # map cancelled (preloads s))" using assms(3) by simp
    then show ?thesis
      unfolding still_listed_def list_ex_iff by (rule bexI[rotated]) simp
  qed
  show ?thesis
    using assms(2) a b
    by (auto simp: check_fetch_queue_cases[OF assms(1)] split: sum.splits list.splits if_splits)
qed

lemma index_of_Some:
  "index_of i active = Some idx \<Longrightarrow> idx < length active \<and> fst (active ! idx) = i"
proof (induction active arbitrary: idx)
  case Nil
  then show ?case by simp
next
  case (Cons preload rest)
  then show ?case by (auto split: if_splits)
qed

lemma index_of_None: "(index_of i active = None) = (i \<notin> fst ` set active)"
  by (induction active) auto

lemma remove_nth_facts:
  assumes "idx < length active"
  shows "set (take idx active @ drop (Suc idx) active) \<subseteq> set active"
    and "length (filter P (take idx active @ drop (Suc idx) active)) \<le> length (filter P active)"
    and "distinct (map fst active) \<Longrightarrow> distinct (map fst (take idx active @ drop (Suc idx) active))"
    and "distinct (map fst active) \<Longrightarrow>
         fst (active ! idx) \<notin> fst ` set (take idx active @ drop (Suc idx) active)"
    and "x \<in> set active \<Longrightarrow> fst x \<noteq> fst (active ! idx) \<Longrightarrow>
         x \<in> set (take idx active @ drop (Suc idx) active)"
proof -
  have d: "active = take idx active @ active ! idx # drop (Suc idx) active"
    using assms by (rule id_take_nth_drop)
  show "set (take idx active @ drop (Suc idx) active) \<subseteq> set active"
    by (metis d set_append set_subset_Cons Un_mono subset_refl)
  have "length (filter P active) =
        length (filter P (take idx active @ active ! idx # drop (Suc idx) active))"
    using d by simp
  then show "length (filter P (take idx active @ drop (Suc idx) active)) \<le> length (filter P active)"
    by simp
  {
    assume "distinct (map fst active)"
    then have e: "distinct (map fst (take idx active @ active ! idx # drop (Suc idx) active))"
      using d by simp
    from e show "distinct (map fst (take idx active @ drop (Suc idx) active))" by simp
    from e show "fst (active ! idx) \<notin> fst ` set (take idx active @ drop (Suc idx) active)" by auto
  }
  {
    assume "x \<in> set active" "fst x \<noteq> fst (active ! idx)"
    then have "x \<in> set (take idx active @ active ! idx # drop (Suc idx) active)"
      using d by simp
    then show "x \<in> set (take idx active @ drop (Suc idx) active)"
      using \<open>fst x \<noteq> fst (active ! idx)\<close> by auto
  }
qed

subsection \<open>At most one running preload, over every execution\<close>

lemma serial_inv_cong:
  "preloads s' = preloads s \<Longrightarrow> next_preloader s' = next_preloader s \<Longrightarrow>
   serial_inv s \<Longrightarrow> serial_inv s'"
  by (simp add: serial_inv_def preloads_wf_def running_def)

lemma preloads_wf_cong:
  "preloads s' = preloads s \<Longrightarrow> next_preloader s' = next_preloader s \<Longrightarrow>
   preloads_wf s \<Longrightarrow> preloads_wf s'"
  by (simp add: preloads_wf_def)

lemma preload_thumbs_frame:
  "preloads (preload_thumbs s i) = preloads s"
  "next_preloader (preload_thumbs s i) = next_preloader s"
  "recently_preloaded_urls (preload_thumbs s i) = recently_preloaded_urls s"
  "current_illust_id (preload_thumbs s i) = current_illust_id s"
  "current_illust_info (preload_thumbs s i) = current_illust_info s"
  "speculative_illust_id (preload_thumbs s i) = speculative_illust_id s"
  "speculative_illust_info (preload_thumbs s i) = speculative_illust_info s"
  by (simp_all add: preload_thumbs_def)

text \<open>What a resumed setter does to the list of preloads: nothing, or one \<open>check_fetch_queue\<close>.\<close>

lemma current_resumed_preloads:
  "(preloads (fst (set_current_image_resumed m s a x)) = preloads s \<and>
    next_preloader (fst (set_current_image_resumed m s a x)) = next_preloader s) \<or>
   (\<exists>s2. preloads s2 = preloads s \<and> next_preloader s2 = next_preloader s \<and>
         check_fetch_queue m s2 = Inr (fst (set_current_image_resumed m s a x)))"
  by (auto simp: set_current_image_resumed_def Let_def preload_thumbs_frame
      split: option.splits sum.splits)

lemma speculative_resumed_preloads:
  "(preloads (fst (set_speculative_image_resumed m s a x)) = preloads s \<and>
    next_preloader (fst (set_speculative_image_resumed m s a x)) = next_preloader s) \<or>
   (\<exists>s2. preloads s2 = preloads s \<and> next_preloader s2 = next_preloader s \<and>
         check_fetch_queue m s2 = Inr (fst (set_speculative_image_resumed m s a x)))"
  by (auto simp: set_speculative_image_resumed_def Let_def preload_thumbs_frame
      split: option.splits sum.splits)

lemma setter_frame:
  "preloads (snd (set_current_image c s a)) = preloads s"
  "next_preloader (snd (set_current_image c s a)) = next_preloader s"
  "recently_preloaded_urls (snd (set_current_image c s a)) = recently_preloaded_urls s"
  "preloads (snd (set_speculative_image c s a)) = preloads s"
  "next_preloader (snd (set_speculative_image c s a)) = next_preloader s"
  "recently_preloaded_urls (snd (set_speculative_image c s a)) = recently_preloaded_urls s"
  by (simp_all add: set_current_image_def set_speculative_image_def Let_def split: option.splits)

lemma resumed_recently:
  "recently_preloaded_urls (fst (set_current_image_resumed m s a x)) = recently_preloaded_urls s"
  "recently_preloaded_urls (fst (set_speculative_image_resumed m s a x)) = recently_preloaded_urls s"
  by (auto simp: set_current_image_resumed_def set_speculative_image_resumed_def Let_def
      preload_thumbs_frame check_fetch_queue_frame split: option.splits sum.splits)

text \<open>What the settlement of a preload does to the list.\<close>

lemma preload_settled_cases:
  "(index_of (fst q) (preloads s) = None \<and>
    preloads (fst (preload_settled m s q)) = preloads s \<and>
    next_preloader (fst (preload_settled m s q)) = next_preloader s) \<or>
   (\<exists>idx s2. index_of (fst q) (preloads s) = Some idx \<and>
      preloads s2 = take idx (preloads s) @ drop (Suc idx) (preloads s) \<and>
      next_preloader s2 = next_preloader s \<and>
      (fst (preload_settled m s q) = s2 \<or> check_fetch_queue m s2 = Inr (fst (preload_settled m s q))))"
proof -
  define s1 where "s1 = s\<lparr>recently_preloaded_urls :=
      drop (length (recently_preloaded_urls s @ [url (snd q)]) - 1000)
        (recently_preloaded_urls s @ [url (snd q)])\<rparr>"
  have p1: "preloads s1 = preloads s" "next_preloader s1 = next_preloader s"
    by (simp_all add: s1_def)
  show ?thesis
  proof (cases "index_of (fst q) (preloads s)")
    case None
    then have "preload_settled m s q = (s1, None)"
      by (simp add: preload_settled_def Let_def s1_def)
    then show ?thesis using None p1 by simp
  next
    case (Some idx)
    define s2 where "s2 = s1\<lparr>preloads := take idx (preloads s1) @ drop (Suc idx) (preloads s1)\<rparr>"
    have p2: "preloads s2 = take idx (preloads s) @ drop (Suc idx) (preloads s)"
      "next_preloader s2 = next_preloader s"
      by (simp_all add: s2_def p1)
    have "preload_settled m s q =
        (case check_fetch_queue m s2 of Inl e \<Rightarrow> (s2, Some e) | Inr s3 \<Rightarrow> (s3, None))"
      using Some by (simp add: preload_settled_def Let_def s1_def s2_def split: sum.splits)
    then have "fst (preload_settled m s q) = s2 \<or>
        check_fetch_queue m s2 = Inr (fst (preload_settled m s q))"
      by (cases "check_fetch_queue m s2") simp_all
    then show ?thesis using Some p2 by blast
  qed
qed

lemma preload_settled_recently:
  "recently_preloaded_urls (fst (preload_settled m s q)) =
   drop (length (recently_preloaded_urls s) + 1 - 1000) (recently_preloaded_urls s @ [url (snd q)])"
  by (auto simp: preload_settled_def Let_def check_fetch_queue_frame split: option.splits sum.splits)

lemma serial_inv_removed:
  assumes "serial_inv s" "idx < length (preloads s)"
    "preloads s2 = take idx (preloads s) @ drop (Suc idx) (preloads s)"
    "next_preloader s2 = next_preloader s"
  shows "serial_inv s2"
proof -
  have "length (running s2) \<le> length (running s)"
    using remove_nth_facts(2)[OF assms(2)] by (simp add: running_def assms(3))
  moreover have "distinct (map fst (preloads s2))"
    using assms(1) remove_nth_facts(3)[OF assms(2)] by (simp add: serial_inv_def preloads_wf_def assms(3))
  moreover have "list_all (\<lambda>preload. fst preload < next_preloader s2) (preloads s2)"
    using assms(1) remove_nth_facts(1)[OF assms(2)]
    unfolding serial_inv_def preloads_wf_def list_all_iff assms(3,4) by blast
  ultimately show ?thesis using assms(1) by (simp add: serial_inv_def preloads_wf_def)
qed

lemma serial_inv_preload_settled:
  assumes "serial_inv s"
  shows "serial_inv (fst (preload_settled m s q))"
proof -
  consider
    (absent) "preloads (fst (preload_settled m s q)) = preloads s"
      "next_preloader (fst (preload_settled m s q)) = next_preloader s"
  | (removed) idx s2 where "index_of (fst q) (preloads s) = Some idx"
      "preloads s2 = take idx (preloads s) @ drop (Suc idx) (preloads s)"
      "next_preloader s2 = next_preloader s"
      "fst (preload_settled m s q) = s2 \<or> check_fetch_queue m s2 = Inr (fst (preload_settled m s q))"
    using preload_settled_cases[of q s m] by blast
  then show ?thesis
  proof cases
    case absent
    then show ?thesis using assms by (rule serial_inv_cong)
  next
    case removed
    have idx: "idx < length (preloads s)" using index_of_Some[OF removed(1)] by simp
    have s2: "serial_inv s2" by (rule serial_inv_removed[OF assms idx removed(2) removed(3)])
    from removed(4) show ?thesis
    proof
      assume "fst (preload_settled m s q) = s2"
      then show ?thesis using s2 by simp
    next
      assume "check_fetch_queue m s2 = Inr (fst (preload_settled m s q))"
      then show ?thesis by (rule serial_inv_check_fetch_queue[OF s2])
    qed
  qed
qed

lemma serial_inv_current_resumed:
  assumes "serial_inv s"
  shows "serial_inv (fst (set_current_image_resumed m s a x))"
  using current_resumed_preloads[of m s a x]
proof (elim disjE conjE exE)
  assume "preloads (fst (set_current_image_resumed m s a x)) = preloads s"
    "next_preloader (fst (set_current_image_resumed m s a x)) = next_preloader s"
  then show ?thesis using assms by (rule serial_inv_cong)
next
  fix s2
  assume a: "preloads s2 = preloads s" "next_preloader s2 = next_preloader s"
    "check_fetch_queue m s2 = Inr (fst (set_current_image_resumed m s a x))"
  have "serial_inv s2" using a(1,2) assms by (rule serial_inv_cong)
  then show ?thesis using a(3) by (rule serial_inv_check_fetch_queue)
qed

lemma serial_inv_speculative_resumed:
  assumes "serial_inv s"
  shows "serial_inv (fst (set_speculative_image_resumed m s a x))"
  using speculative_resumed_preloads[of m s a x]
proof (elim disjE conjE exE)
  assume "preloads (fst (set_speculative_image_resumed m s a x)) = preloads s"
    "next_preloader (fst (set_speculative_image_resumed m s a x)) = next_preloader s"
  then show ?thesis using assms by (rule serial_inv_cong)
next
  fix s2
  assume a: "preloads s2 = preloads s" "next_preloader s2 = next_preloader s"
    "check_fetch_queue m s2 = Inr (fst (set_speculative_image_resumed m s a x))"
  have "serial_inv s2" using a(1,2) assms by (rule serial_inv_cong)
  then show ?thesis using a(3) by (rule serial_inv_check_fetch_queue)
qed

lemma serial_inv_step: "serial_inv (snd cs) \<Longrightarrow> serial_inv (snd (preloader_step m cs e))"
proof (cases cs)
  case (Pair c s)
  assume "serial_inv (snd cs)"
  then have s: "serial_inv s" by (simp add: Pair)
  show ?thesis
  proof (cases e)
    case (Set_current_image a)
    then show ?thesis using serial_inv_cong[OF setter_frame(1,2) s] by (simp add: Pair)
  next
    case (Current_image_resumed a x)
    then show ?thesis using serial_inv_current_resumed[OF s] by (simp add: Pair)
  next
    case (Set_speculative_image a)
    then show ?thesis using serial_inv_cong[OF setter_frame(4,5) s] by (simp add: Pair)
  next
    case (Speculative_image_resumed a x)
    then show ?thesis using serial_inv_speculative_resumed[OF s] by (simp add: Pair)
  next
    case (Preload_settled q)
    then show ?thesis using serial_inv_preload_settled[OF s] by (simp add: Pair)
  qed
qed

lemma serial_inv_foldl:
  "serial_inv (snd cs) \<Longrightarrow> serial_inv (snd (foldl (preloader_step m) cs evs))"
  by (induction evs arbitrary: cs) (simp_all add: serial_inv_step)

lemma serial_inv_run: "serial_inv (snd (preloader_run m evs))"
  unfolding preloader_run_def
  by (rule serial_inv_foldl)
     (simp add: serial_inv_def preloads_wf_def running_def preloader_constructor_def)

lemma preloader_run_snoc:
  "preloader_run m (evs @ [e]) = preloader_step m (preloader_run m evs) e"
  by (simp add: preloader_run_def)

text \<open>
  Claim C6, as stated, at a concrete input. Illustration 1 becomes the current one and its
  first preview starts loading. Before that preload settles, illustration 3 becomes the
  current one: its first preview is started at once, and the preload of illustration 1 is
  cancelled and stays in the list. A second preload has started before the first settled.
\<close>

theorem second_preload_before_settlement_counterexample:
  "preloads (snd (preloader_run no_muting
      [Set_current_image (Some id_1), Current_image_resumed id_1 (Some illust_1)])) =
     [(0, \<lparr>url = ''s1'', strategy = Img_preloader, abort_controller = True\<rparr>)] \<and>
   preloads (snd (preloader_run no_muting
      [Set_current_image (Some id_1), Current_image_resumed id_1 (Some illust_1),
       Set_current_image (Some id_3), Current_image_resumed id_3 (Some manga_3)])) =
     [(1, \<lparr>url = ''s3a'', strategy = Img_preloader, abort_controller = True\<rparr>),
      (0, \<lparr>url = ''s1'', strategy = Img_preloader, abort_controller = False\<rparr>)]"
  by (simp add: preloader_run_def preloader_constructor_def set_current_image_def
      set_current_image_resumed_def preload_thumbs_def check_fetch_queue_def
      filtered_preloads_def wanted_preloads_def create_preloaders_for_illust_def
      concurrent_preloads_def no_muting_def illust_1_def manga_3_def img_preloader_def
      start_def cancel_def Let_def)

text \<open>
  Claim C6, amended. In every execution at most one object of \<open>this.preloads\<close> is running
  (started and not cancelled). \<open>check_fetch_queue\<close> changes nothing when the list of wanted
  preloads is empty, or when the URL of one of them is the URL of an object in
  \<open>this.preloads\<close>, running or cancelled. Otherwise it starts exactly the first wanted
  preload and cancels every object that was in the list, keeping them in it: the started
  one is then the only one running. So a second preload starts before the first settles
  exactly when no wanted URL is in the list any more, and the first is cancelled then.
\<close>

theorem one_running_preload:
  "length (running (snd (preloader_run m evs))) \<le> 1 \<and>
   (filtered_preloads m s = Inr [] \<longrightarrow> check_fetch_queue m s = Inr s) \<and>
   (preloads_wf s \<and> filtered_preloads m s = Inr filtered \<and>
    (\<exists>wanted \<in> set filtered. url wanted \<in> (\<lambda>listed. url (snd listed)) ` set (preloads s)) \<longrightarrow>
      check_fetch_queue m s = Inr s) \<and>
   (preloads_wf s \<and> filtered_preloads m s = Inr (preload # rest) \<and>
    \<not> (\<exists>wanted \<in> set (preload # rest). url wanted \<in> (\<lambda>listed. url (snd listed)) ` set (preloads s)) \<longrightarrow>
      check_fetch_queue m s =
        Inr (s\<lparr>preloads := (next_preloader s, start preload) # map cancelled (preloads s),
               next_preloader := Suc (next_preloader s)\<rparr>) \<and>
      running (s\<lparr>preloads := (next_preloader s, start preload) # map cancelled (preloads s),
                 next_preloader := Suc (next_preloader s)\<rparr>) = [(next_preloader s, start preload)])"
proof -
  have a: "length (running (snd (preloader_run m evs))) \<le> 1"
    using serial_inv_run[of m evs] by (simp add: serial_inv_def)
  have b: "filtered_preloads m s = Inr [] \<longrightarrow> check_fetch_queue m s = Inr s"
    by (simp add: check_fetch_queue_def)
  have c: "preloads_wf s \<and> filtered_preloads m s = Inr filtered \<and>
    (\<exists>wanted \<in> set filtered. url wanted \<in> (\<lambda>listed. url (snd listed)) ` set (preloads s)) \<longrightarrow>
      check_fetch_queue m s = Inr s"
    by (cases filtered) (auto simp: check_fetch_queue_cases)
  have d: "running (s\<lparr>preloads := (next_preloader s, start preload) # map cancelled (preloads s),
                 next_preloader := Suc (next_preloader s)\<rparr>) = [(next_preloader s, start preload)]"
    by (simp add: running_def filter_map_cancelled start_def)
  have e: "preloads_wf s \<and> filtered_preloads m s = Inr (preload # rest) \<and>
    \<not> (\<exists>wanted \<in> set (preload # rest). url wanted \<in> (\<lambda>listed. url (snd listed)) ` set (preloads s)) \<longrightarrow>
      check_fetch_queue m s =
        Inr (s\<lparr>preloads := (next_preloader s, start preload) # map cancelled (preloads s),
               next_preloader := Suc (next_preloader s)\<rparr>)"
    by (auto simp: check_fetch_queue_cases)
  show ?thesis using a b c d e by blast
qed

theorem one_running_preload_witness:
  "length (running (snd (preloader_run no_muting
      [Set_current_image (Some id_1), Current_image_resumed id_1 (Some illust_1),
       Set_current_image (Some id_3), Current_image_resumed id_3 (Some manga_3)]))) \<le> 1 \<and>
   filtered_preloads no_muting preloader_constructor = Inr [] \<and>
   check_fetch_queue no_muting preloader_constructor = Inr preloader_constructor \<and>
   preloads_wf viewing_1_running \<and>
   filtered_preloads no_muting viewing_1_running = Inr [img_preloader ''s1'', img_preloader ''o1''] \<and>
   (\<exists>wanted \<in> set [img_preloader ''s1'', img_preloader ''o1''].
      url wanted \<in> (\<lambda>listed. url (snd listed)) ` set (preloads viewing_1_running)) \<and>
   check_fetch_queue no_muting viewing_1_running = Inr viewing_1_running \<and>
   preloads_wf viewing_3_after_1 \<and>
   filtered_preloads no_muting viewing_3_after_1 =
     Inr [img_preloader ''s3a'', img_preloader ''s3b'', img_preloader ''s3c'', img_preloader ''o3a''] \<and>
   \<not> (\<exists>wanted \<in> set [img_preloader ''s3a'', img_preloader ''s3b'', img_preloader ''s3c'', img_preloader ''o3a''].
      url wanted \<in> (\<lambda>listed. url (snd listed)) ` set (preloads viewing_3_after_1)) \<and>
   check_fetch_queue no_muting viewing_3_after_1 =
     Inr (viewing_3_after_1
            \<lparr>preloads := [(1, start (img_preloader ''s3a'')), (0, img_preloader ''s1'')],
             next_preloader := 2\<rparr>)"
proof -
  have f0: "filtered_preloads no_muting preloader_constructor = Inr []"
    by (simp add: filtered_preloads_def wanted_preloads_def preloader_constructor_def)
  have w1: "preloads_wf viewing_1_running"
    by (simp add: preloads_wf_def viewing_1_running_def preloader_constructor_def)
  have f1: "filtered_preloads no_muting viewing_1_running = Inr [img_preloader ''s1'', img_preloader ''o1'']"
    by (simp add: filtered_preloads_def wanted_preloads_def create_preloaders_for_illust_def
        concurrent_preloads_def viewing_1_running_def preloader_constructor_def no_muting_def
        illust_1_def)
  have a1: "\<exists>wanted \<in> set [img_preloader ''s1'', img_preloader ''o1''].
      url wanted \<in> (\<lambda>listed. url (snd listed)) ` set (preloads viewing_1_running)"
    by (simp add: viewing_1_running_def preloader_constructor_def img_preloader_def start_def)
  have w3: "preloads_wf viewing_3_after_1"
    by (simp add: preloads_wf_def viewing_3_after_1_def preloader_constructor_def)
  have f3: "filtered_preloads no_muting viewing_3_after_1 =
     Inr [img_preloader ''s3a'', img_preloader ''s3b'', img_preloader ''s3c'', img_preloader ''o3a'']"
    by (simp add: filtered_preloads_def wanted_preloads_def create_preloaders_for_illust_def
        concurrent_preloads_def viewing_3_after_1_def preloader_constructor_def no_muting_def
        manga_3_def)
  have a3: "\<not> (\<exists>wanted \<in> set [img_preloader ''s3a'', img_preloader ''s3b'', img_preloader ''s3c'', img_preloader ''o3a''].
      url wanted \<in> (\<lambda>listed. url (snd listed)) ` set (preloads viewing_3_after_1))"
    by (simp add: viewing_3_after_1_def preloader_constructor_def img_preloader_def start_def)
  have p3: "preloads viewing_3_after_1 = [(0, start (img_preloader ''s1''))]"
    "next_preloader viewing_3_after_1 = 1"
    by (simp_all add: viewing_3_after_1_def preloader_constructor_def)
  have c3: "map cancelled [(0, start (img_preloader ''s1''))] = [(0, img_preloader ''s1'')]"
    by (simp add: cancelled_def cancel_def start_def img_preloader_def)
  let ?evs = "[Set_current_image (Some id_1), Current_image_resumed id_1 (Some illust_1),
               Set_current_image (Some id_3), Current_image_resumed id_3 (Some manga_3)]"
  let ?f1 = "[img_preloader ''s1'', img_preloader ''o1'']"
  let ?r3 = "[img_preloader ''s3b'', img_preloader ''s3c'', img_preloader ''o3a'']"
  have k0: "length (running (snd (preloader_run no_muting ?evs))) \<le> 1 \<and>
      check_fetch_queue no_muting preloader_constructor = Inr preloader_constructor"
    using one_running_preload[where m = no_muting and s = preloader_constructor and evs = ?evs
        and filtered = "[]" and preload = "img_preloader ''s1''" and rest = "[]"] f0
    by blast
  have k1: "check_fetch_queue no_muting viewing_1_running = Inr viewing_1_running"
    using one_running_preload[where m = no_muting and s = viewing_1_running and evs = "[]"
        and filtered = ?f1 and preload = "img_preloader ''s1''" and rest = "[]"] w1 f1 a1
    by blast
  have k3: "check_fetch_queue no_muting viewing_3_after_1 =
      Inr (viewing_3_after_1
             \<lparr>preloads := (next_preloader viewing_3_after_1, start (img_preloader ''s3a''))
                           # map cancelled (preloads viewing_3_after_1),
              next_preloader := Suc (next_preloader viewing_3_after_1)\<rparr>)"
    using one_running_preload[where m = no_muting and s = viewing_3_after_1 and evs = "[]"
        and filtered = "[]" and preload = "img_preloader ''s3a''" and rest = ?r3] w3 f3 a3
    by blast
  have k3': "check_fetch_queue no_muting viewing_3_after_1 =
     Inr (viewing_3_after_1
            \<lparr>preloads := [(1, start (img_preloader ''s3a'')), (0, img_preloader ''s1'')],
             next_preloader := 2\<rparr>)"
    using k3 unfolding p3 c3 by simp
  show ?thesis
    using k0 f0 w1 f1 a1 k1 w3 f3 a3 k3' by blast
qed

subsection \<open>An object stays in the list until it settles\<close>

lemma fst_cancelled_image: "fst ` set (map cancelled active) = fst ` set active"
  by (induction active) simp_all

lemma check_fetch_queue_ids:
  assumes "preloads_wf s" "check_fetch_queue m s = Inr s'"
  shows "fst ` set (preloads s') \<subseteq> insert (next_preloader s) (fst ` set (preloads s))"
proof -
  have "preloads s' = preloads s \<or>
        (\<exists>p. preloads s' = (next_preloader s, p) # map cancelled (preloads s))"
    using assms(2)
    by (auto simp: check_fetch_queue_cases[OF assms(1)] split: sum.splits list.splits if_splits)
  then show ?thesis
  proof (elim disjE exE)
    assume "preloads s' = preloads s"
    then show ?thesis by auto
  next
    fix p
    assume e: "preloads s' = (next_preloader s, p) # map cancelled (preloads s)"
    have "fst ` set (preloads s') =
          insert (next_preloader s) (fst ` set (map cancelled (preloads s)))"
      unfolding e by simp
    then show ?thesis unfolding fst_cancelled_image by simp
  qed
qed

lemma still_listed_member: "x \<in> set active \<Longrightarrow> still_listed active x"
  by (auto simp: still_listed_def list_ex_iff)

lemma still_listed_resumed:
  assumes "preloads_wf s" "x \<in> set (preloads s)"
    "(preloads s' = preloads s \<and> next_preloader s' = next_preloader s) \<or>
     (\<exists>s2. preloads s2 = preloads s \<and> next_preloader s2 = next_preloader s \<and>
           check_fetch_queue m s2 = Inr s')"
  shows "still_listed (preloads s') x"
proof -
  consider (same) "preloads s' = preloads s"
    | (checked) s2 where "preloads s2 = preloads s" "next_preloader s2 = next_preloader s"
        "check_fetch_queue m s2 = Inr s'"
    using assms(3) by blast
  then show ?thesis
  proof cases
    case same
    then show ?thesis using assms(2) by (simp add: still_listed_member)
  next
    case checked
    have w: "preloads_wf s2" using checked(1,2) assms(1) by (rule preloads_wf_cong)
    have "x \<in> set (preloads s2)" using assms(2) checked(1) by simp
    then show ?thesis by (rule still_listed_check_fetch_queue[OF w checked(3)])
  qed
qed

lemma still_listed_settled:
  assumes "serial_inv s" "x \<in> set (preloads s)" "fst q \<noteq> fst x"
  shows "still_listed (preloads (fst (preload_settled m s q))) x"
proof -
  consider
    (absent) "preloads (fst (preload_settled m s q)) = preloads s"
  | (removed) idx s2 where "index_of (fst q) (preloads s) = Some idx"
      "preloads s2 = take idx (preloads s) @ drop (Suc idx) (preloads s)"
      "next_preloader s2 = next_preloader s"
      "fst (preload_settled m s q) = s2 \<or> check_fetch_queue m s2 = Inr (fst (preload_settled m s q))"
    using preload_settled_cases[of q s m] by blast
  then show ?thesis
  proof cases
    case absent
    then show ?thesis using assms(2) by (simp add: still_listed_member)
  next
    case removed
    have idx: "idx < length (preloads s)" "fst (preloads s ! idx) = fst q"
      using index_of_Some[OF removed(1)] by simp_all
    have s2: "serial_inv s2" by (rule serial_inv_removed[OF assms(1) idx(1) removed(2) removed(3)])
    have x2: "x \<in> set (preloads s2)"
      using remove_nth_facts(5)[OF idx(1) assms(2)] assms(3) idx(2) by (simp add: removed(2))
    from removed(4) show ?thesis
    proof
      assume "fst (preload_settled m s q) = s2"
      then show ?thesis using x2 by (simp add: still_listed_member)
    next
      assume c: "check_fetch_queue m s2 = Inr (fst (preload_settled m s q))"
      have w: "preloads_wf s2" using s2 by (simp add: serial_inv_def)
      show ?thesis by (rule still_listed_check_fetch_queue[OF w c x2])
    qed
  qed
qed

lemma settled_removed:
  assumes "serial_inv s" "x \<in> set (preloads s)" "fst y = fst x"
  shows "fst x \<notin> fst ` set (preloads (fst (preload_settled m s y)))"
proof -
  have wf: "preloads_wf s" using assms(1) by (simp add: serial_inv_def)
  have "index_of (fst y) (preloads s) \<noteq> None"
    using assms(2,3) by (simp add: index_of_None)
  then obtain idx s2 where r: "index_of (fst y) (preloads s) = Some idx"
      "preloads s2 = take idx (preloads s) @ drop (Suc idx) (preloads s)"
      "next_preloader s2 = next_preloader s"
      "fst (preload_settled m s y) = s2 \<or> check_fetch_queue m s2 = Inr (fst (preload_settled m s y))"
    using preload_settled_cases[of y s m] by auto
  have idx: "idx < length (preloads s)" "fst (preloads s ! idx) = fst x"
    using index_of_Some[OF r(1)] assms(3) by simp_all
  have d: "distinct (map fst (preloads s))" using wf by (simp add: preloads_wf_def)
  have n2: "fst x \<notin> fst ` set (preloads s2)"
    using remove_nth_facts(4)[OF idx(1) d] idx(2) by (simp add: r(2))
  have lt: "fst x < next_preloader s"
    using wf assms(2) by (auto simp: preloads_wf_def list_all_iff)
  from r(4) show ?thesis
  proof
    assume "fst (preload_settled m s y) = s2"
    then show ?thesis using n2 by simp
  next
    assume c: "check_fetch_queue m s2 = Inr (fst (preload_settled m s y))"
    have w: "preloads_wf s2"
      using serial_inv_removed[OF assms(1) idx(1) r(2) r(3)] by (simp add: serial_inv_def)
    show ?thesis using check_fetch_queue_ids[OF w c] n2 lt r(3) by auto
  qed
qed

lemma run_1_then_3:
  "snd (preloader_run no_muting
      [Set_current_image (Some id_1), Current_image_resumed id_1 (Some illust_1),
       Set_current_image (Some id_3), Current_image_resumed id_3 (Some manga_3)]) =
   viewing_3_after_1
     \<lparr>preloads := [(1, start (img_preloader ''s3a'')), (0, img_preloader ''s1'')],
      thumbs_preloaded := [''s3a'', ''s3b'', ''s3c''] # [],
      next_preloader := 2\<rparr>"
  by (simp add: preloader_run_def preloader_constructor_def set_current_image_def
      set_current_image_resumed_def preload_thumbs_def check_fetch_queue_def
      filtered_preloads_def wanted_preloads_def create_preloaders_for_illust_def
      concurrent_preloads_def no_muting_def illust_1_def manga_3_def img_preloader_def
      start_def cancel_def Let_def viewing_3_after_1_def)

lemma settled_recently_last:
  "last (drop (length recent + 1 - 1000) (recent @ [u])) = u"
  by simp

text \<open>
  Claim C9. Take any execution and an object \<open>x\<close> of \<open>this.preloads\<close> at its end. After one
  more event that is not the settlement of \<open>x\<close>, the object is still in the list, with its
  URL and class, and has not been started anew: a cancelled object stays cancelled. No event
  other than a settlement changes \<open>recently_preloaded_urls\<close>. When \<open>x\<close> settles, it is no
  longer in the list afterwards, and its URL has been pushed to \<open>recently_preloaded_urls\<close>
  (of which the last 1000 entries are kept), where it is the last entry.
\<close>

theorem cancelled_preload_stays_listed:
  "(x \<in> set (preloads (snd (preloader_run m evs))) \<and> (\<forall>q. e \<noteq> Preload_settled (fst x, q)) \<longrightarrow>
      still_listed (preloads (snd (preloader_run m (evs @ [e])))) x) \<and>
   ((\<forall>y. e \<noteq> Preload_settled y) \<longrightarrow>
      recently_preloaded_urls (snd (preloader_run m (evs @ [e]))) =
      recently_preloaded_urls (snd (preloader_run m evs))) \<and>
   (x \<in> set (preloads (snd (preloader_run m evs))) \<and> fst y = fst x \<longrightarrow>
      fst x \<notin> fst ` set (preloads (snd (preloader_run m (evs @ [Preload_settled y])))) \<and>
      recently_preloaded_urls (snd (preloader_run m (evs @ [Preload_settled y]))) =
        drop (length (recently_preloaded_urls (snd (preloader_run m evs))) + 1 - 1000)
          (recently_preloaded_urls (snd (preloader_run m evs)) @ [url (snd y)]) \<and>
      last (recently_preloaded_urls (snd (preloader_run m (evs @ [Preload_settled y])))) = url (snd y))"
proof -
  obtain c s where cs: "preloader_run m evs = (c, s)" by (cases "preloader_run m evs")
  have inv: "serial_inv s" using serial_inv_run[of m evs] by (simp add: cs)
  have wf: "preloads_wf s" using inv by (simp add: serial_inv_def)
  have a: "still_listed (preloads (snd (preloader_step m (c, s) e))) x"
    if x: "x \<in> set (preloads s)" and e: "\<forall>q. e \<noteq> Preload_settled (fst x, q)"
  proof (cases e)
    case (Set_current_image a)
    then show ?thesis using x by (simp add: setter_frame still_listed_member)
  next
    case (Current_image_resumed a y)
    then show ?thesis
      using still_listed_resumed[OF wf x current_resumed_preloads[of m s a y]] by simp
  next
    case (Set_speculative_image a)
    then show ?thesis using x by (simp add: setter_frame still_listed_member)
  next
    case (Speculative_image_resumed a y)
    then show ?thesis
      using still_listed_resumed[OF wf x speculative_resumed_preloads[of m s a y]] by simp
  next
    case (Preload_settled q)
    have "fst q \<noteq> fst x" using e Preload_settled by (cases q) auto
    then show ?thesis using still_listed_settled[OF inv x] Preload_settled by simp
  qed
  have b: "recently_preloaded_urls (snd (preloader_step m (c, s) e)) = recently_preloaded_urls s"
    if "\<forall>y. e \<noteq> Preload_settled y"
    using that by (cases e) (simp_all add: setter_frame resumed_recently)
  have d: "fst x \<notin> fst ` set (preloads (snd (preloader_step m (c, s) (Preload_settled y))))"
    if "x \<in> set (preloads s)" "fst y = fst x"
    using settled_removed[OF inv that] by simp
  have r: "recently_preloaded_urls (snd (preloader_step m (c, s) (Preload_settled y))) =
        drop (length (recently_preloaded_urls s) + 1 - 1000) (recently_preloaded_urls s @ [url (snd y)])"
    by (simp add: preload_settled_recently)
  have l: "last (recently_preloaded_urls (snd (preloader_step m (c, s) (Preload_settled y)))) = url (snd y)"
    unfolding r by (rule settled_recently_last)
  show ?thesis
    using a b d r l by (simp add: preloader_run_snoc cs)
qed

theorem cancelled_preload_stays_listed_witness:
  "(0, img_preloader ''s1'') \<in> set (preloads (snd (preloader_run no_muting
      [Set_current_image (Some id_1), Current_image_resumed id_1 (Some illust_1),
       Set_current_image (Some id_3), Current_image_resumed id_3 (Some manga_3)]))) \<and>
   (\<forall>q. Set_speculative_image (Some id_2) \<noteq> Preload_settled (fst (0::nat, img_preloader ''s1''), q)) \<and>
   still_listed (preloads (snd (preloader_run no_muting
      ([Set_current_image (Some id_1), Current_image_resumed id_1 (Some illust_1),
        Set_current_image (Some id_3), Current_image_resumed id_3 (Some manga_3)]
       @ [Set_speculative_image (Some id_2)])))) (0, img_preloader ''s1'') \<and>
   recently_preloaded_urls (snd (preloader_run no_muting
      ([Set_current_image (Some id_1), Current_image_resumed id_1 (Some illust_1),
        Set_current_image (Some id_3), Current_image_resumed id_3 (Some manga_3)]
       @ [Set_speculative_image (Some id_2)]))) = [] \<and>
   0 \<notin> fst ` set (preloads (snd (preloader_run no_muting
      ([Set_current_image (Some id_1), Current_image_resumed id_1 (Some illust_1),
        Set_current_image (Some id_3), Current_image_resumed id_3 (Some manga_3)]
       @ [Preload_settled (0, start (img_preloader ''s1''))])))) \<and>
   recently_preloaded_urls (snd (preloader_run no_muting
      ([Set_current_image (Some id_1), Current_image_resumed id_1 (Some illust_1),
        Set_current_image (Some id_3), Current_image_resumed id_3 (Some manga_3)]
       @ [Preload_settled (0, start (img_preloader ''s1''))]))) = [''s1'']"
proof -
  let ?evs = "[Set_current_image (Some id_1), Current_image_resumed id_1 (Some illust_1),
       Set_current_image (Some id_3), Current_image_resumed id_3 (Some manga_3)]"
  let ?x = "(0::nat, img_preloader ''s1'')"
  let ?y = "(0::nat, start (img_preloader ''s1''))"
  have m: "?x \<in> set (preloads (snd (preloader_run no_muting ?evs)))"
    unfolding run_1_then_3 by simp
  have r0: "recently_preloaded_urls (snd (preloader_run no_muting ?evs)) = []"
    unfolding run_1_then_3 by (simp add: viewing_3_after_1_def preloader_constructor_def)
  have e: "\<forall>q. Set_speculative_image (Some id_2) \<noteq> Preload_settled (fst ?x, q)"
    "\<forall>y. Set_speculative_image (Some id_2) \<noteq> Preload_settled y"
    by simp_all
  have f: "fst ?y = fst ?x" by simp
  have u: "url (snd ?y) = ''s1''" by (simp add: start_def img_preloader_def)
  note t = cancelled_preload_stays_listed[where m = no_muting and evs = ?evs and x = ?x
      and e = "Set_speculative_image (Some id_2)" and y = ?y]
  have 1: "still_listed (preloads (snd (preloader_run no_muting
      (?evs @ [Set_speculative_image (Some id_2)])))) ?x"
    using t m e by blast
  have 2: "recently_preloaded_urls (snd (preloader_run no_muting
      (?evs @ [Set_speculative_image (Some id_2)]))) = []"
    using t e r0 by simp
  have 3: "fst ?x \<notin> fst ` set (preloads (snd (preloader_run no_muting (?evs @ [Preload_settled ?y]))))"
    using t m f by blast
  have 4: "recently_preloaded_urls (snd (preloader_run no_muting (?evs @ [Preload_settled ?y]))) =
        drop (length (recently_preloaded_urls (snd (preloader_run no_muting ?evs))) + 1 - 1000)
          (recently_preloaded_urls (snd (preloader_run no_muting ?evs)) @ [url (snd ?y)])"
    using t m f by blast
  have r4: "recently_preloaded_urls (snd (preloader_run no_muting (?evs @ [Preload_settled ?y]))) = [''s1'']"
    unfolding 4 r0 u by simp
  show ?thesis using m e(1) 1 2 3 r4 by simp
qed

subsection \<open>A stale result of \<open>set_current_image\<close>\<close>

lemma current_fields_frame:
  "current_illust_id (snd (set_speculative_image c s a)) = current_illust_id s"
  "current_illust_info (snd (set_speculative_image c s a)) = current_illust_info s"
  "current_illust_id (fst (set_speculative_image_resumed m s k x)) = current_illust_id s"
  "current_illust_info (fst (set_speculative_image_resumed m s k x)) = current_illust_info s"
  "current_illust_id (fst (preload_settled m s q)) = current_illust_id s"
  "current_illust_info (fst (preload_settled m s q)) = current_illust_info s"
  by (auto simp: set_speculative_image_def set_speculative_image_resumed_def preload_settled_def
      Let_def preload_thumbs_frame check_fetch_queue_frame split: option.splits sum.splits)

lemma set_current_image_resumed_stale:
  "current_illust_id s \<noteq> Some a \<Longrightarrow> set_current_image_resumed m s a x = (s, None)"
  by (simp add: set_current_image_resumed_def)

lemma set_current_image_resumed_fields:
  "current_illust_id (fst (set_current_image_resumed m s a x)) = current_illust_id s"
  "current_illust_info (fst (set_current_image_resumed m s a x)) =
     (if current_illust_id s = Some a \<and> current_illust_info s = None then x
      else current_illust_info s)"
  by (auto simp: set_current_image_resumed_def Let_def preload_thumbs_frame
      check_fetch_queue_frame split: option.splits sum.splits)

lemma set_current_image_fields:
  "current_illust_id (snd (set_current_image c s a)) = a"
  "current_illust_info (snd (set_current_image c s a)) =
     (if current_illust_id s = a then current_illust_info s else None)"
  by (auto simp: set_current_image_def Let_def split: option.splits)

lemma stored_for_current_step:
  assumes "stored_for_current evs s"
  shows "stored_for_current (evs @ [e]) (snd (preloader_step m (c, s) e))"
proof (cases e)
  case (Set_current_image a)
  then show ?thesis
    using assms
    by (auto simp: stored_for_current_def set_current_image_fields split: option.splits)
next
  case (Current_image_resumed a x)
  then show ?thesis
    using assms
    by (auto simp: stored_for_current_def set_current_image_resumed_fields split: option.splits)
next
  case (Set_speculative_image a)
  then show ?thesis
    using assms
    by (auto simp: stored_for_current_def current_fields_frame split: option.splits)
next
  case (Speculative_image_resumed a x)
  then show ?thesis
    using assms
    by (auto simp: stored_for_current_def current_fields_frame split: option.splits)
next
  case (Preload_settled q)
  then show ?thesis
    using assms
    by (auto simp: stored_for_current_def current_fields_frame split: option.splits)
qed

lemma stored_for_current_run: "stored_for_current evs (snd (preloader_run m evs))"
proof (induction evs rule: rev_induct)
  case Nil
  show ?case by (simp add: preloader_run_def stored_for_current_def preloader_constructor_def)
next
  case (snoc e evs)
  obtain c s where cs: "preloader_run m evs = (c, s)" by (cases "preloader_run m evs")
  show ?case
    using stored_for_current_step[of evs s e m c] snoc by (simp add: preloader_run_snoc cs)
qed

text \<open>
  Claim C8. \<open>set_current_image\<close> resumed for the identifier \<open>a\<close> while the current
  identifier is another one changes nothing, whatever the \<open>await\<close> yields. In particular,
  after \<open>set_current_image(a)\<close> and then \<open>set_current_image(b)\<close> with \<open>b\<close> different from
  \<open>a\<close>, the current identifier is \<open>b\<close>, no record is stored, and the resumption of the
  first call leaves the state as it is. The resumption of a call made for the current
  identifier, while no record is stored, stores what its \<open>await\<close> yields. Over every
  execution, a record stored as \<open>current_illust_info\<close> was delivered to a call made for the
  identifier that is the current one.
\<close>

theorem stale_metadata_discarded:
  "(current_illust_id s \<noteq> Some a \<longrightarrow> set_current_image_resumed m s a x = (s, None)) \<and>
   (b \<noteq> Some a \<longrightarrow>
      (case set_current_image c s (Some a) of (c1, s1) \<Rightarrow>
         (case set_current_image c1 s1 b of (c2, s2) \<Rightarrow>
            current_illust_id s2 = b \<and> current_illust_info s2 = None \<and>
            set_current_image_resumed m s2 a x = (s2, None)))) \<and>
   (current_illust_id s = Some k \<and> current_illust_info s = None \<longrightarrow>
      current_illust_info (fst (set_current_image_resumed m s k y)) = y) \<and>
   stored_for_current evs (snd (preloader_run m evs))"
proof -
  obtain c1 s1 where p1: "set_current_image c s (Some a) = (c1, s1)"
    by (cases "set_current_image c s (Some a)")
  obtain c2 s2 where p2: "set_current_image c1 s1 b = (c2, s2)"
    by (cases "set_current_image c1 s1 b")
  have q: "current_illust_id s2 = b \<and> current_illust_info s2 = None \<and>
        set_current_image_resumed m s2 a x = (s2, None)" if n: "b \<noteq> Some a"
  proof -
    have 1: "current_illust_id s1 = Some a"
      using set_current_image_fields(1)[of c s "Some a"] p1 by simp
    have 2: "current_illust_id s2 = b"
      using set_current_image_fields(1)[of c1 s1 b] p2 by simp
    have 3: "current_illust_info s2 = None"
      using set_current_image_fields(2)[of c1 s1 b] p2 1 n by simp
    have 4: "set_current_image_resumed m s2 a x = (s2, None)"
      using 2 n by (simp add: set_current_image_resumed_stale)
    show ?thesis using 2 3 4 by simp
  qed
  have A: "current_illust_id s \<noteq> Some a \<longrightarrow> set_current_image_resumed m s a x = (s, None)"
    by (simp add: set_current_image_resumed_stale)
  have B: "b \<noteq> Some a \<longrightarrow>
      (case set_current_image c s (Some a) of (c1, s1) \<Rightarrow>
         (case set_current_image c1 s1 b of (c2, s2) \<Rightarrow>
            current_illust_id s2 = b \<and> current_illust_info s2 = None \<and>
            set_current_image_resumed m s2 a x = (s2, None)))"
    using q by (simp add: p1 p2)
  have C: "current_illust_id s = Some k \<and> current_illust_info s = None \<longrightarrow>
      current_illust_info (fst (set_current_image_resumed m s k y)) = y"
    by (simp add: set_current_image_resumed_fields(2))
  show ?thesis using A B C stored_for_current_run[of evs m] by blast
qed

theorem stale_metadata_discarded_witness:
  "current_illust_id moved_to_3 \<noteq> Some id_1 \<and>
   set_current_image_resumed no_muting moved_to_3 id_1 (Some illust_1) = (moved_to_3, None) \<and>
   Some id_3 \<noteq> Some id_1 \<and>
   (case set_current_image constructor preloader_constructor (Some id_1) of (c1, s1) \<Rightarrow>
      (case set_current_image c1 s1 (Some id_3) of (c2, s2) \<Rightarrow>
         current_illust_id s2 = Some id_3 \<and> current_illust_info s2 = None \<and>
         set_current_image_resumed no_muting s2 id_1 (Some illust_1) = (s2, None))) \<and>
   current_illust_id moved_to_3 = Some id_3 \<and> current_illust_info moved_to_3 = None \<and>
   current_illust_info (fst (set_current_image_resumed no_muting moved_to_3 id_3 (Some manga_3)))
     = Some manga_3 \<and>
   stored_for_current
     [Set_current_image (Some id_1), Set_current_image (Some id_3),
      Current_image_resumed id_1 (Some illust_1), Current_image_resumed id_3 (Some manga_3)]
     (snd (preloader_run no_muting
       [Set_current_image (Some id_1), Set_current_image (Some id_3),
        Current_image_resumed id_1 (Some illust_1), Current_image_resumed id_3 (Some manga_3)]))"
proof -
  have h: "current_illust_id moved_to_3 \<noteq> Some id_1" "Some id_3 \<noteq> Some id_1"
    "current_illust_id moved_to_3 = Some id_3" "current_illust_info moved_to_3 = None"
    by (simp_all add: moved_to_3_def preloader_constructor_def)
  note t1 = stale_metadata_discarded[where s = moved_to_3 and a = id_1 and m = no_muting
      and x = "Some illust_1" and b = "Some id_3" and c = constructor and k = id_3
      and y = "Some manga_3"
      and evs = "[Set_current_image (Some id_1), Set_current_image (Some id_3),
        Current_image_resumed id_1 (Some illust_1), Current_image_resumed id_3 (Some manga_3)]"]
  note t2 = stale_metadata_discarded[where s = preloader_constructor and a = id_1 and m = no_muting
      and x = "Some illust_1" and b = "Some id_3" and c = constructor and k = id_3
      and y = "Some manga_3" and evs = "[]"]
  have 1: "set_current_image_resumed no_muting moved_to_3 id_1 (Some illust_1) = (moved_to_3, None)"
    using t1[THEN conjunct1] h(1) by (rule mp)
  have 2: "case set_current_image constructor preloader_constructor (Some id_1) of (c1, s1) \<Rightarrow>
      (case set_current_image c1 s1 (Some id_3) of (c2, s2) \<Rightarrow>
         current_illust_id s2 = Some id_3 \<and> current_illust_info s2 = None \<and>
         set_current_image_resumed no_muting s2 id_1 (Some illust_1) = (s2, None))"
    using t2[THEN conjunct2, THEN conjunct1] h(2) by (rule mp)
  have 3: "current_illust_info (fst (set_current_image_resumed no_muting moved_to_3 id_3 (Some manga_3)))
     = Some manga_3"
    using t1[THEN conjunct2, THEN conjunct2, THEN conjunct1] h(3,4) by simp
  note 4 = t1[THEN conjunct2, THEN conjunct2, THEN conjunct2]
  show ?thesis
    by (intro conjI) (rule h 1 2 3 4)+
qed

end
